theory Spec2Isabelle
  imports Complex_Main "HOL-Library.Word" "HOL-Library.Log_Nat"
begin

unbundle bit_operations_syntax

section \<open>Block transfer engine\<close>

text \<open>
  The header \<^verbatim>\<open>libc-redacted.h\<close> works on raw memory through \<^verbatim>\<open>char*\<close> pointers.
  Memory is modelled as a flat store from 64-bit addresses to bytes; a pointer is an
  address, \<^verbatim>\<open>size_t\<close> is a 64-bit word (the LP64 data model of the
  \<^verbatim>\<open>__x86_64__\<close> branch; the portable branch is read with
  \<^verbatim>\<open>sizeof(size_t) = 8\<close> as well). Pointer increments and the sum
  \<^verbatim>\<open>d + n\<close> wrap around modulo \<open>2^64\<close>, as the machine does.
  Every function returns the updated store together with its C return value.
\<close>

type_synonym addr = "64 word"
type_synonym byte = "8 word"
type_synonym mem = "addr \<Rightarrow> byte"

subsection \<open>The copy loops\<close>

text \<open>
  \<^verbatim>\<open>while (n--) { *d++ = *s++; }\<close>, which is also what \<^verbatim>\<open>rep movsb\<close> does with the
  direction flag clear. The state is the store and the two cursors.
\<close>

function fwd_bytes :: "mem \<times> addr \<times> addr \<Rightarrow> 64 word \<Rightarrow> mem \<times> addr \<times> addr" where
  "fwd_bytes (m, d, s) n =
     (if n = 0 then (m, d, s)
      else fwd_bytes (m(d := m s), d + 1, s + 1) (n - 1))"
  by pat_completeness auto
termination
  by (relation "measure (\<lambda>(st, n). unat n)") (auto simp: measure_unat)

declare fwd_bytes.simps [simp del]

text \<open>
  \<^verbatim>\<open>while (n--) { *d-- = *s--; }\<close>, and \<^verbatim>\<open>std; rep movsb; cld\<close>: the same loop with
  both cursors decremented.
\<close>

function bwd_bytes :: "mem \<times> addr \<times> addr \<Rightarrow> 64 word \<Rightarrow> mem \<times> addr \<times> addr" where
  "bwd_bytes (m, d, s) n =
     (if n = 0 then (m, d, s)
      else bwd_bytes (m(d := m s), d - 1, s - 1) (n - 1))"
  by pat_completeness auto
termination
  by (relation "measure (\<lambda>(st, n). unat n)") (auto simp: measure_unat)

declare bwd_bytes.simps [simp del]

text \<open>
  One 8-byte transfer \<^verbatim>\<open>*wd = *ws\<close> (one \<^verbatim>\<open>movsq\<close>): the eight source bytes are
  loaded, then stored. An address \<open>a\<close> lies in the destination word when
  \<open>a - d < 8\<close> in wrap-around arithmetic.
\<close>

definition copy_word :: "mem \<Rightarrow> addr \<Rightarrow> addr \<Rightarrow> mem" where
  "copy_word m d s = (\<lambda>a. if a - d < 8 then m (s + (a - d)) else m a)"

text \<open>
  \<^verbatim>\<open>while (words--) { *wd++ = *ws++; }\<close> and \<^verbatim>\<open>rep movsq\<close>: the cursors advance by
  eight bytes per transfer.
\<close>

function fwd_words :: "mem \<times> addr \<times> addr \<Rightarrow> 64 word \<Rightarrow> mem \<times> addr \<times> addr" where
  "fwd_words (m, d, s) w =
     (if w = 0 then (m, d, s)
      else fwd_words (copy_word m d s, d + 8, s + 8) (w - 1))"
  by pat_completeness auto
termination
  by (relation "measure (\<lambda>(st, w). unat w)") (auto simp: measure_unat)

declare fwd_words.simps [simp del]

text \<open>
  The accelerated forward copy shared by \<^verbatim>\<open>memcpy\<close> (both branches) and by the
  \<^verbatim>\<open>__x86_64__\<close> branch of \<^verbatim>\<open>memmove\<close>: whole words when \<open>n \<ge> 8\<close> and both
  pointers are 8-byte aligned, then the remaining \<open>n AND 7\<close> bytes.
\<close>

definition fwd_fast :: "mem \<times> addr \<times> addr \<Rightarrow> 64 word \<Rightarrow> mem \<times> addr \<times> addr" where
  "fwd_fast st n =
     (case st of (m, d, s) \<Rightarrow>
        if 8 \<le> n \<and> d AND 7 = 0 \<and> s AND 7 = 0
        then fwd_bytes (fwd_words (m, d, s) (n div 8)) (n AND 7)
        else fwd_bytes (m, d, s) n)"

subsection \<open>memcpy, memmove, memcmp\<close>

definition memcpy :: "mem \<Rightarrow> addr \<Rightarrow> addr \<Rightarrow> 64 word \<Rightarrow> mem \<times> addr" where
  "memcpy m dest src n = (fst (fwd_fast (m, dest, src) n), dest)"

text \<open>
  \<^verbatim>\<open>memmove\<close>; the flag \<open>x86_64\<close> is the compile-time macro \<^verbatim>\<open>__x86_64__\<close>, which
  selects word-granular forward copies in place of the byte loop.
\<close>

definition memmove :: "bool \<Rightarrow> mem \<Rightarrow> addr \<Rightarrow> addr \<Rightarrow> 64 word \<Rightarrow> mem \<times> addr" where
  "memmove x86_64 m dest src n =
     (let d = dest; s = src in
      if d = s \<or> n = 0 then (m, dest)
      else if s < d + n \<and> d < s + n then
        (if d < s then
           (if x86_64 then (fst (fwd_fast (m, d, s) n), dest)
            else (fst (fwd_bytes (m, d, s) n), dest))
         else (fst (bwd_bytes (m, d + (n - 1), s + (n - 1)) n), dest))
      else
        (if x86_64 then (fst (fwd_fast (m, d, s) n), dest)
         else (fst (fwd_bytes (m, d, s) n), dest)))"

text \<open>
  \<^verbatim>\<open>memcmp\<close>: the bytes are \<^verbatim>\<open>unsigned char\<close>, promoted to \<^verbatim>\<open>int\<close> before the
  subtraction, so the difference lies in \<open>[-255, 255]\<close> and never overflows; the
  result is an unbounded integer.
\<close>

function memcmp :: "mem \<Rightarrow> addr \<Rightarrow> addr \<Rightarrow> 64 word \<Rightarrow> int" where
  "memcmp m p1 p2 n =
     (if n = 0 then 0
      else if m p1 \<noteq> m p2 then uint (m p1) - uint (m p2)
      else memcmp m (p1 + 1) (p2 + 1) (n - 1))"
  by pat_completeness auto
termination
  by (relation "measure (\<lambda>(m, p1, p2, n). unat n)") (auto simp: measure_unat)

declare memcmp.simps [simp del]

subsection \<open>Reference semantics of a move\<close>

text \<open>
  The specification's reference for \<^verbatim>\<open>move\<close>: the source range is first copied byte by
  byte, left to right, into a scratch buffer that is not part of the store, and the
  buffer is then written to the destination.
\<close>

fun snapshot :: "mem \<Rightarrow> addr \<Rightarrow> nat \<Rightarrow> byte list" where
  "snapshot m s 0 = []"
| "snapshot m s (Suc k) = m s # snapshot m (s + 1) k"

fun write_back :: "mem \<Rightarrow> addr \<Rightarrow> byte list \<Rightarrow> mem" where
  "write_back m d [] = m"
| "write_back m d (b # bs) = write_back (m(d := b)) (d + 1) bs"

definition snapshot_then_write :: "mem \<Rightarrow> addr \<Rightarrow> addr \<Rightarrow> 64 word \<Rightarrow> mem" where
  "snapshot_then_write m dest src n = write_back m dest (snapshot m src (unat n))"

text \<open>
  A range of \<open>n\<close> bytes at \<open>p\<close> is a valid C object range when its one-past-the-end
  pointer is representable; two valid ranges overlap when each starts before the
  other ends.
\<close>

definition valid_range :: "addr \<Rightarrow> 64 word \<Rightarrow> bool" where
  "valid_range p n = (unat p + unat n < 2 ^ 64)"

definition ranges_overlap :: "addr \<Rightarrow> addr \<Rightarrow> 64 word \<Rightarrow> bool" where
  "ranges_overlap d s n = (unat s < unat d + unat n \<and> unat d < unat s + unat n)"

text \<open>
  The closed form of a correct transfer: every destination byte holds the byte the
  source held at the same offset in the store before the call, and nothing else changes.
\<close>

definition moved :: "mem \<Rightarrow> addr \<Rightarrow> addr \<Rightarrow> 64 word \<Rightarrow> mem" where
  "moved m d s n = (\<lambda>a. if a - d < n then m (s + (a - d)) else m a)"

text \<open>Two small stores used to run the functions on concrete inputs.\<close>

definition mem0 :: mem where
  "mem0 = (\<lambda>a. 0)(0 := 1, 1 := 2, 2 := 3, 8 := 1, 9 := 2, 10 := 7)"

definition mem1 :: mem where
  "mem1 = (\<lambda>a. 0)(16 := 1, 17 := 2, 18 := 3, 19 := 4)"

section \<open>Numeric primitive engine\<close>

text \<open>
  A \<^verbatim>\<open>double\<close> is modelled by its IEEE 754 binary64 bit pattern, the view the header
  itself takes through \<^verbatim>\<open>union { double d; uint64_t i; }\<close>. The numeric functions are
  embedded from the portable (\<^verbatim>\<open>#else\<close>) branches of the header, which are plain C; the
  \<^verbatim>\<open>__x86_64__\<close> branches are x87 inline assembly and are not modelled. The C
  operators \<^verbatim>\<open>+ - * / < > == >=\<close> on doubles are given their IEEE 754 meaning in the
  default rounding mode (round to nearest, ties to even).
\<close>

type_synonym double = "64 word"

subsection \<open>Bit-pattern primitives of the header\<close>

definition fabs :: "double \<Rightarrow> double" where
  "fabs x = x AND 0x7FFFFFFFFFFFFFFF"

definition signbit :: "double \<Rightarrow> bool" where
  "signbit x = (drop_bit 63 x AND 1 \<noteq> 0)"

definition isfinite :: "double \<Rightarrow> bool" where
  "isfinite x = (drop_bit 52 x AND 0x7FF \<noteq> 0x7FF)"

definition isinf :: "double \<Rightarrow> bool" where
  "isinf x = (drop_bit 52 x AND 0x7FF = 0x7FF \<and> x AND 0xFFFFFFFFFFFFF = 0)"

definition isnan :: "double \<Rightarrow> bool" where
  "isnan x = (drop_bit 52 x AND 0x7FF = 0x7FF \<and> x AND 0xFFFFFFFFFFFFF \<noteq> 0)"

subsection \<open>IEEE 754 binary64 values\<close>

text \<open>The three fields of a bit pattern: sign, biased exponent and fraction.\<close>

definition dsign :: "double \<Rightarrow> bool" where
  "dsign x = bit x 63"

definition dexp :: "double \<Rightarrow> int" where
  "dexp x = uint (drop_bit 52 x AND 0x7FF)"

definition dfrac :: "double \<Rightarrow> int" where
  "dfrac x = uint (x AND 0xFFFFFFFFFFFFF)"

definition d_nan :: "double \<Rightarrow> bool" where
  "d_nan x = (dexp x = 2047 \<and> dfrac x \<noteq> 0)"

definition d_inf :: "double \<Rightarrow> bool" where
  "d_inf x = (dexp x = 2047 \<and> dfrac x = 0)"

definition d_zero :: "double \<Rightarrow> bool" where
  "d_zero x = (dexp x = 0 \<and> dfrac x = 0)"

definition pow2 :: "int \<Rightarrow> rat" where
  "pow2 e = (if 0 \<le> e then 2 ^ nat e else 1 / 2 ^ nat (- e))"

text \<open>
  The rational value of a pattern: \<open>\<plusminus> f * 2^(-1074)\<close> for a subnormal number,
  \<open>\<plusminus> (2^52 + f) * 2^(e - 1075)\<close> for a normal one. The same formula gives an infinity
  the value \<open>\<plusminus> 2^1024\<close>, beyond every finite double, so that comparing values orders
  all patterns that are not NaN as IEEE 754 does.
\<close>

definition valof :: "double \<Rightarrow> rat" where
  "valof x = (if dsign x then - 1 else 1) *
     of_int (if dexp x = 0 then dfrac x else 2 ^ 52 + dfrac x) *
     pow2 (max (dexp x) 1 - 1075)"

text \<open>Rounding a rational to the nearest integer, ties to the even one.\<close>

definition rne :: "rat \<Rightarrow> int" where
  "rne r = (let n = \<lfloor>r\<rfloor>; d = r - of_int n in
      if d < 1 / 2 then n else if 1 / 2 < d then n + 1 else if even n then n else n + 1)"

text \<open>\<open>ilog2 a\<close> is the integer \<open>k\<close> with \<open>2^k \<le> a < 2^(k+1)\<close>, for \<open>a > 0\<close>.\<close>

definition ilog2 :: "rat \<Rightarrow> int" where
  "ilog2 a = (if 1 \<le> a then bitlen \<lfloor>a\<rfloor> - 1 else - bitlen (\<lceil>1 / a\<rceil> - 1))"

text \<open>
  Rounding a magnitude to the 63 low bits of a pattern. With \<open>E\<close> the exponent of the
  binade (at least \<open>-1022\<close>, where the subnormal numbers start) and \<open>M\<close> the magnitude
  in units of \<open>2^(E - 52)\<close> rounded to an integer, the pattern is
  \<open>(E + 1022) * 2^52 + M\<close>: a carry of \<open>M\<close> to \<open>2^53\<close> moves into the exponent field,
  and a result at or above the pattern of infinity is infinity.
\<close>

definition dround_mag :: "rat \<Rightarrow> int" where
  "dround_mag a = (if a = 0 then 0 else
     let E = max (ilog2 a) (- 1022);
         M = rne (a / pow2 (E - 52));
         b = (E + 1022) * 2 ^ 52 + M
     in if 0x7FF0000000000000 \<le> b then 0x7FF0000000000000 else b)"

definition dround :: "rat \<Rightarrow> double" where
  "dround q = (if q < 0 then 0x8000000000000000 OR word_of_int (dround_mag (- q))
     else word_of_int (dround_mag q))"

definition d_qnan :: double where
  "d_qnan = 0x7FF8000000000000"

definition signed_zero :: "bool \<Rightarrow> double" where
  "signed_zero s = (if s then 0x8000000000000000 else 0)"

definition signed_inf :: "bool \<Rightarrow> double" where
  "signed_inf s = (if s then 0xFFF0000000000000 else 0x7FF0000000000000)"

definition dneg :: "double \<Rightarrow> double" where
  "dneg x = x XOR 0x8000000000000000"

subsection \<open>The C operators on doubles\<close>

definition dadd :: "double \<Rightarrow> double \<Rightarrow> double" where
  "dadd x y =
     (if d_nan x \<or> d_nan y then d_qnan
      else if d_inf x then (if d_inf y \<and> dsign x \<noteq> dsign y then d_qnan else x)
      else if d_inf y then y
      else let r = valof x + valof y in
        if r = 0 then signed_zero (dsign x \<and> dsign y) else dround r)"

definition dsub :: "double \<Rightarrow> double \<Rightarrow> double" where
  "dsub x y = dadd x (dneg y)"

definition dmul :: "double \<Rightarrow> double \<Rightarrow> double" where
  "dmul x y =
     (if d_nan x \<or> d_nan y then d_qnan
      else if (d_inf x \<and> d_zero y) \<or> (d_zero x \<and> d_inf y) then d_qnan
      else if d_inf x \<or> d_inf y then signed_inf (dsign x \<noteq> dsign y)
      else let r = valof x * valof y in
        if r = 0 then signed_zero (dsign x \<noteq> dsign y) else dround r)"

definition ddiv :: "double \<Rightarrow> double \<Rightarrow> double" where
  "ddiv x y =
     (if d_nan x \<or> d_nan y then d_qnan
      else if (d_inf x \<and> d_inf y) \<or> (d_zero x \<and> d_zero y) then d_qnan
      else if d_inf x \<or> d_zero y then signed_inf (dsign x \<noteq> dsign y)
      else if d_inf y \<or> d_zero x then signed_zero (dsign x \<noteq> dsign y)
      else dround (valof x / valof y))"

definition dlt :: "double \<Rightarrow> double \<Rightarrow> bool" where
  "dlt x y = (\<not> d_nan x \<and> \<not> d_nan y \<and> valof x < valof y)"

definition dgt :: "double \<Rightarrow> double \<Rightarrow> bool" where
  "dgt x y = dlt y x"

definition dle :: "double \<Rightarrow> double \<Rightarrow> bool" where
  "dle x y = (\<not> d_nan x \<and> \<not> d_nan y \<and> valof x \<le> valof y)"

definition dge :: "double \<Rightarrow> double \<Rightarrow> bool" where
  "dge x y = dle y x"

definition deq :: "double \<Rightarrow> double \<Rightarrow> bool" where
  "deq x y = (\<not> d_nan x \<and> \<not> d_nan y \<and> valof x = valof y)"

text \<open>
  The cast \<^verbatim>\<open>(long long)x\<close> discards the fraction; C leaves it undefined when the
  integral part does not fit the type (and for NaN and the infinities): \<open>None\<close>. The
  64-bit result is an integer with its range written out.
\<close>

definition d2ll :: "double \<Rightarrow> int option" where
  "d2ll x =
     (if d_nan x \<or> d_inf x then None
      else let t = (if 0 \<le> valof x then \<lfloor>valof x\<rfloor> else \<lceil>valof x\<rceil>) in
        if - (2 ^ 63) \<le> t \<and> t < 2 ^ 63 then Some t else None)"

text \<open>The cast \<^verbatim>\<open>(double)k\<close> of a \<^verbatim>\<open>long long\<close>: the nearest double.\<close>

definition ll2d :: "int \<Rightarrow> double" where
  "ll2d k = (if k = 0 then 0 else dround (of_int k))"

text \<open>The literals \<^verbatim>\<open>0.0\<close>, \<^verbatim>\<open>0.5\<close>, \<^verbatim>\<open>1.0\<close> and \<^verbatim>\<open>1e-15\<close>.\<close>

definition d_0 :: double where "d_0 = 0"
definition d_half :: double where "d_half = 0x3FE0000000000000"
definition d_1 :: double where "d_1 = 0x3FF0000000000000"
definition d_1e_15 :: double where "d_1e_15 = 0x3CD203AF9EE75616"

subsection \<open>The numeric functions of the header\<close>

text \<open>
  \<^verbatim>\<open>floor\<close>, \<^verbatim>\<open>round\<close> and \<^verbatim>\<open>sqrt\<close> are named \<open>floor_c\<close>, \<open>round_c\<close> and \<open>sqrt_c\<close>,
  the plain names being constants of HOL. A function that reaches the cast
  \<^verbatim>\<open>(long long)x\<close> returns an option, \<open>None\<close> standing for undefined behaviour.
\<close>

definition fmin :: "double \<Rightarrow> double \<Rightarrow> double" where
  "fmin x y = (if isnan x then y else if isnan y then x else if dlt x y then x else y)"

definition fmax :: "double \<Rightarrow> double \<Rightarrow> double" where
  "fmax x y = (if isnan x then y else if isnan y then x else if dgt x y then x else y)"

definition trunc :: "double \<Rightarrow> double option" where
  "trunc x = (if dge x d_0 then map_option ll2d (d2ll x) else map_option ll2d (d2ll x))"

definition floor_c :: "double \<Rightarrow> double option" where
  "floor_c x = (case trunc x of None \<Rightarrow> None
      | Some t \<Rightarrow> Some (if dgt t x then dsub t d_1 else t))"

definition ceil :: "double \<Rightarrow> double option" where
  "ceil x = (case trunc x of None \<Rightarrow> None
      | Some t \<Rightarrow> Some (if dlt t x then dadd t d_1 else t))"

definition round_c :: "double \<Rightarrow> double option" where
  "round_c x = floor_c (dadd x d_half)"

text \<open>
  The Newton-Raphson loop of \<^verbatim>\<open>sqrt\<close>, entered with \<open>guess\<close>: one round of the
  \<^verbatim>\<open>do ... while\<close> body, then the test. The loop returns \<open>None\<close> when it runs forever.
\<close>

partial_function (option) newton :: "double \<Rightarrow> double \<Rightarrow> double option" where
  "newton x guess =
     (let prev = guess;
          guess' = dmul (dadd guess (ddiv x guess)) d_half
      in if dgt (fabs (dsub guess' prev)) d_1e_15 then newton x guess' else Some guess')"

definition sqrt_c :: "double \<Rightarrow> double option" where
  "sqrt_c x =
     (if dlt x d_0 then Some (ddiv d_0 d_0)
      else if deq x d_0 then Some x
      else newton x x)"

definition fmod :: "double \<Rightarrow> double \<Rightarrow> double option" where
  "fmod x y =
     (if deq y d_0 then Some (ddiv d_0 d_0)
      else let quotient = ddiv x y in
        case trunc quotient of None \<Rightarrow> None
        | Some integer_part \<Rightarrow> Some (dsub x (dmul integer_part y)))"

text \<open>One round of the loop body of \<^verbatim>\<open>sqrt\<close>, named for the proofs.\<close>

definition newton_next :: "double \<Rightarrow> double \<Rightarrow> double" where
  "newton_next x guess = dmul (dadd guess (ddiv x guess)) d_half"

subsection \<open>Auxiliary notions for the proofs\<close>

text \<open>
  The value encoded by the 63 low bits of a pattern; the integer significand and the
  exponent of a double, with \<open>valof x = \<plusminus> mant x * 2^(expo x)\<close>; and truncation of a
  rational toward zero.
\<close>

definition mag_val :: "int \<Rightarrow> rat" where
  "mag_val b = of_int (if b div 2 ^ 52 = 0 then b mod 2 ^ 52 else 2 ^ 52 + b mod 2 ^ 52) *
     pow2 (max (b div 2 ^ 52) 1 - 1075)"

definition mant :: "double \<Rightarrow> int" where
  "mant x = (if dexp x = 0 then dfrac x else 2 ^ 52 + dfrac x)"

definition expo :: "double \<Rightarrow> int" where
  "expo x = max (dexp x) 1 - 1075"

definition tz :: "rat \<Rightarrow> int" where
  "tz v = (if 0 \<le> v then \<lfloor>v\<rfloor> else \<lceil>v\<rceil>)"

section \<open>Correctness of the block transfer engine\<close>

subsection \<open>Wrap-around arithmetic on addresses\<close>

lemma usub: "unat (k - a :: 64 word) = (if a \<le> k then unat k - unat a else unat k + 2 ^ 64 - unat a)"
  by (simp add: unat_sub_if' word_le_nat_alt)

lemma uadd: "unat (a + b :: 64 word) = (if unat a + unat b < 2 ^ 64 then unat a + unat b else unat a + unat b - 2 ^ 64)"
  by (simp add: unat_plus_if')

lemma ubnd: "unat (a :: 64 word) < 2 ^ 64"
  using unsigned_less[of a, where 'a = nat] by simp

lemma w1:
  fixes a b k e :: "64 word"
  assumes nowrap: "unat a + unat b < 2 ^ 64"
  shows "(k - a < b) = (a \<le> k \<and> k < a + b)" 
  using nowrap ubnd[of k] ubnd[of a] ubnd[of b]
  by (auto simp add: word_less_nat_alt word_le_nat_alt usub uadd)

lemma w2:
  fixes a b k e :: "64 word"
  assumes nowrap: "unat a + unat b < 2 ^ 64" and e: "e = 0 \<or> a + b \<le> e"
  shows "a \<le> k \<Longrightarrow> k < a + b \<Longrightarrow> \<not> k - e < a" 
  using nowrap e ubnd[of k] ubnd[of a] ubnd[of b] ubnd[of e]
  by (auto simp add: word_less_nat_alt word_le_nat_alt usub uadd)

lemma w3:
  fixes a b k e :: "64 word"
  assumes nowrap: "unat a + unat b < 2 ^ 64"
  shows  "k < a \<Longrightarrow> k < a + b" 
  using nowrap ubnd[of k] ubnd[of a] ubnd[of b]
  by (auto simp add: word_less_nat_alt word_le_nat_alt usub uadd)

lemma moved_append:
  assumes safe: "d = s \<or> a + b \<le> d - s" and nowrap: "unat a + unat b < 2 ^ 64"
  shows "moved (moved m d s a) (d + a) (s + a) b = moved m d s (a + b)"
proof
  fix x
  define k where "k = x - d"
  define e where "e = d - s"
  have x: "x = d + k" by (simp add: k_def)
  have s: "s = d - e" by (simp add: e_def)
  have e: "e = 0 \<or> a + b \<le> e" using safe by (auto simp: e_def)
  note 1 = w1[OF nowrap, of k] 
  note 2 = w2[OF nowrap e, of k] 
  note 3 = w3[OF nowrap, of k]
  have A: "d + k - (d + a) = k - a" by simp
  have B: "d - e + a + (k - a) = d - e + k" by simp
  have C: "d - e + k - d = k - e" by simp
  have D: "d + k - d = k" by simp
  show "moved (moved m d s a) (d + a) (s + a) b x = moved m d s (a + b) x"
    unfolding moved_def x s A B C D using 1 2 3 by (auto simp: not_less)
qed

subsection \<open>The copy loops in closed form\<close>

lemma fwd_bytes_0: "fwd_bytes st 0 = st"
  by (cases st) (simp add: fwd_bytes.simps[of _ _ _ 0])

lemma fwd_bytes_step:
  "n \<noteq> 0 \<Longrightarrow> fwd_bytes (m, d, s) n = fwd_bytes (m(d := m s), d + 1, s + 1) (n - 1)"
  by (subst fwd_bytes.simps) simp

lemma bwd_bytes_0: "bwd_bytes st 0 = st"
  by (cases st) (simp add: bwd_bytes.simps[of _ _ _ 0])

lemma bwd_bytes_step:
  "n \<noteq> 0 \<Longrightarrow> bwd_bytes (m, d, s) n = bwd_bytes (m(d := m s), d - 1, s - 1) (n - 1)"
  by (subst bwd_bytes.simps) simp

lemma fwd_words_0: "fwd_words st 0 = st"
  by (cases st) (simp add: fwd_words.simps[of _ _ _ 0])

lemma fwd_words_step:
  "w \<noteq> 0 \<Longrightarrow> fwd_words (m, d, s) w = fwd_words (copy_word m d s, d + 8, s + 8) (w - 1)"
  by (subst fwd_words.simps) simp

lemma moved_0: "moved m d s 0 = m"
  by (simp add: moved_def)

lemma upd_moved: "m(d := m s) = moved m d s 1"
  by (auto simp: moved_def fun_eq_iff)

lemma copy_word_moved: "copy_word m d s = moved m d s 8"
  by (simp add: copy_word_def moved_def)

lemma dec_safe:
  fixes n e c :: "64 word"
  assumes "e = 0 \<or> n \<le> e" "c \<le> n"
  shows "e = 0 \<or> n - c \<le> e"
  using assms ubnd[of n] ubnd[of e] ubnd[of c]
  by (auto simp add: word_less_nat_alt word_le_nat_alt usub)

lemma fwd_bytes_moved:
  "d = s \<or> n \<le> d - s \<Longrightarrow> fwd_bytes (m, d, s) n = (moved m d s n, d + n, s + n)"
proof (induction "(m, d, s)" n arbitrary: m d s rule: fwd_bytes.induct)
  case (1 m d s n)
  show ?case
  proof (cases "n = 0")
    case True
    then show ?thesis by (simp add: moved_0 fwd_bytes_0)
  next
    case False
    then have n1: "1 \<le> n" by (simp add: word_le_nat_alt unat_gt_0 Suc_le_eq)
    have "d - s = 0 \<or> n - 1 \<le> d - s"
      by (rule dec_safe[OF _ n1]) (use "1.prems" in auto)
    then have cond: "d + 1 = s + 1 \<or> n - 1 \<le> (d + 1) - (s + 1)" by auto
    have step: "fwd_bytes (m(d := m s), d + 1, s + 1) (n - 1) =
        (moved (m(d := m s)) (d + 1) (s + 1) (n - 1), d + 1 + (n - 1), s + 1 + (n - 1))"
      using "1.hyps"[OF False cond] .
    have nw: "unat (1 :: 64 word) + unat (n - 1) < 2 ^ 64" 
      using False ubnd[of n] by (simp add: unat_minus_one)
    have "moved (moved m d s 1) (d + 1) (s + 1) (n - 1) = moved m d s (1 + (n - 1))"
      by (rule moved_append) (use "1.prems" nw in auto)
    then have eq: "moved (m(d := m s)) (d + 1) (s + 1) (n - 1) = moved m d s n"
      by (simp add: upd_moved)
    show ?thesis using False step eq by (simp add: fwd_bytes_step)
  qed
qed

lemma mul8: "unat w < 2 ^ 61 \<Longrightarrow> unat (8 * w :: 64 word) = 8 * unat w"
  by (simp add: unat_word_ariths)

lemma fwd_words_moved:
  "d = s \<or> 8 * w \<le> d - s \<Longrightarrow> unat w < 2 ^ 61 \<Longrightarrow>
   fwd_words (m, d, s) w = (moved m d s (8 * w), d + 8 * w, s + 8 * w)"
proof (induction "(m, d, s)" w arbitrary: m d s rule: fwd_words.induct)
  case (1 m d s w)
  show ?case
  proof (cases "w = 0")
    case True
    then show ?thesis by (simp add: moved_0 fwd_words_0)
  next
    case False
    have small: "unat (w - 1) < 2 ^ 61" using "1.prems" False by (simp add: unat_minus_one)
    have w8: "8 * (w - 1) = 8 * w - 8" by (simp add: algebra_simps)
    have le8: "8 \<le> 8 * w" using False "1.prems"(2)
      by (simp add: word_le_nat_alt mul8 unat_gt_0 Suc_le_eq)
    have "d - s = 0 \<or> 8 * w - 8 \<le> d - s"
      by (rule dec_safe[OF _ le8]) (use "1.prems" in auto)
    then have cond: "d + 8 = s + 8 \<or> 8 * (w - 1) \<le> (d + 8) - (s + 8)"
      by (auto simp: w8)
    have step: "fwd_words (copy_word m d s, d + 8, s + 8) (w - 1) =
        (moved (copy_word m d s) (d + 8) (s + 8) (8 * (w - 1)), d + 8 + 8 * (w - 1), s + 8 + 8 * (w - 1))"
      using "1.hyps"[OF False cond small] .
    have u: "unat (8 * (w - 1)) = 8 * (unat w - 1)"
      unfolding mul8[OF small] unat_minus_one[OF False] ..
    have nw: "unat (8 :: 64 word) + unat (8 * (w - 1)) < 2 ^ 64"
      unfolding u using "1.prems"(2) by simp
    have "moved (moved m d s 8) (d + 8) (s + 8) (8 * (w - 1)) = moved m d s (8 + 8 * (w - 1))"
      by (rule moved_append) (use "1.prems" nw in \<open>auto simp: algebra_simps\<close>)
    then have eq: "moved (copy_word m d s) (d + 8) (s + 8) (8 * (w - 1)) = moved m d s (8 * w)"
      by (simp add: copy_word_moved algebra_simps)
    show ?thesis using False step eq by (simp add: fwd_words_step algebra_simps)
  qed
qed

lemma and7: "(n :: 64 word) AND 7 = n mod 8"
proof -
  have "take_bit 3 n = n mod 2 ^ 3" by (rule take_bit_eq_mod)
  then have "n AND mask 3 = n mod 2 ^ 3" by (simp only: take_bit_eq_mask)
  then show ?thesis by (simp add: mask_eq_exp_minus_1)
qed

lemma fwd_fast_moved:
  assumes safe: "d = s \<or> n \<le> d - s"
  shows "fwd_fast (m, d, s) n = (moved m d s n, d + n, s + n)"
proof (cases "8 \<le> n \<and> d AND 7 = 0 \<and> s AND 7 = 0")
  case False
  then show ?thesis using fwd_bytes_moved[OF safe] by (auto simp: fwd_fast_def)
next
  case True
  define w where "w = n div 8"
  define r where "r = n AND 7"
  have split: "8 * w + r = n" by (simp only: w_def r_def and7 mult_div_mod_eq)
  have uw: "unat w = unat n div 8" by (simp add: w_def unat_div)
  have ur: "unat r = unat n mod 8" by (simp add: r_def and7 unat_mod)
  have small: "unat w < 2 ^ 61" using ubnd[of n] by (simp add: uw)
  have u8: "unat (8 * w) = 8 * unat w" by (rule mul8[OF small])
  have nw: "unat (8 * w) + unat r < 2 ^ 64" using ubnd[of n] by (simp add: u8 uw ur)
  have le8: "8 * w \<le> n" by (simp add: word_le_nat_alt u8 uw)
  have ler: "r \<le> n" by (simp add: word_le_nat_alt ur)
  have c1: "d = s \<or> 8 * w \<le> d - s" using safe le8 by auto
  have "d - s = 0 \<or> r \<le> d - s" using safe ler by auto
  then have c2: "d + 8 * w = s + 8 * w \<or> r \<le> (d + 8 * w) - (s + 8 * w)" by auto
  have c3: "d = s \<or> 8 * w + r \<le> d - s" using safe by (simp add: split)
  have "fwd_fast (m, d, s) n = fwd_bytes (fwd_words (m, d, s) w) r"
    using True by (simp add: fwd_fast_def w_def r_def)
  also have "\<dots> = fwd_bytes (moved m d s (8 * w), d + 8 * w, s + 8 * w) r"
    by (simp only: fwd_words_moved[OF c1 small])
  also have "\<dots> = (moved (moved m d s (8 * w)) (d + 8 * w) (s + 8 * w) r,
      d + 8 * w + r, s + 8 * w + r)"
    by (rule fwd_bytes_moved[OF c2])
  also have "\<dots> = (moved m d s n, d + n, s + n)"
    using moved_append[OF c3 nw, of m] split by (simp add: add.assoc)
  finally show ?thesis .
qed

lemma bwd_bytes_mirror:
  "bwd_bytes (m, e, t) n =
     (case fwd_bytes (m \<circ> uminus, - e, - t) n of (m', d', s') \<Rightarrow> (m' \<circ> uminus, - d', - s'))"
proof (induction "(m, e, t)" n arbitrary: m e t rule: bwd_bytes.induct)
  case (1 m e t n)
  show ?case
  proof (cases "n = 0")
    case True
    then show ?thesis
      by (simp add: comp_def bwd_bytes_0 fwd_bytes_0)
  next
    case False
    have upd: "(m(e := m t)) \<circ> uminus = (m \<circ> uminus)(- e := (m \<circ> uminus) (- t))"
      by (auto simp: fun_eq_iff)
    have "bwd_bytes (m, e, t) n = bwd_bytes (m(e := m t), e - 1, t - 1) (n - 1)"
      using False by (rule bwd_bytes_step)
    also have "\<dots> = (case fwd_bytes ((m(e := m t)) \<circ> uminus, - (e - 1), - (t - 1)) (n - 1) of
        (m', d', s') \<Rightarrow> (m' \<circ> uminus, - d', - s'))"
      by (rule "1.hyps"[OF False])
    also have "fwd_bytes ((m(e := m t)) \<circ> uminus, - (e - 1), - (t - 1)) (n - 1) =
        fwd_bytes (m \<circ> uminus, - e, - t) n"
      using False by (simp add: upd fwd_bytes_step[of n "m \<circ> uminus"] del: fun_upd_apply)
    finally show ?thesis .
  qed
qed

lemma back_index:
  fixes n k :: "64 word"
  assumes "n \<noteq> 0"
  shows "((n - 1) - k < n) = (k < n)"
  using assms ubnd[of n] ubnd[of k]
  by (auto simp add: word_less_nat_alt word_le_nat_alt usub unat_minus_one unat_gt_0)

lemma bwd_bytes_moved:
  assumes safe: "n \<le> s - d" and n0: "n \<noteq> 0"
  shows "fst (bwd_bytes (m, d + (n - 1), s + (n - 1)) n) = moved m d s n"
proof -
  have c: "- (d + (n - 1)) = - (s + (n - 1)) \<or> n \<le> - (d + (n - 1)) - (- (s + (n - 1)))"
    using safe by simp
  have "fst (bwd_bytes (m, d + (n - 1), s + (n - 1)) n) =
      moved (m \<circ> uminus) (- (d + (n - 1))) (- (s + (n - 1))) n \<circ> uminus"
    by (simp only: bwd_bytes_mirror fwd_bytes_moved[OF c] prod.case fst_conv)
  also have "\<dots> = moved m d s n"
  proof
    fix a
    define k where "k = a - d"
    have a: "a = d + k" by (simp add: k_def)
    have i: "- (d + k) - (- (d + (n - 1))) = (n - 1) - k" by simp
    have j: "- (- (s + (n - 1)) + ((n - 1) - k)) = s + k" by simp
    have l: "d + k - d = k" by simp
    show "(moved (m \<circ> uminus) (- (d + (n - 1))) (- (s + (n - 1))) n \<circ> uminus) a = moved m d s n a"
      unfolding moved_def comp_def a i j l back_index[OF n0] by (simp add: add.commute)
  qed
  finally show ?thesis .
qed

subsection \<open>The reference semantics in closed form\<close>

lemma snapshot_length: "length (snapshot m s k) = k"
  by (induction k arbitrary: s) auto

lemma snapshot_nth: "i < k \<Longrightarrow> snapshot m s k ! i = m (s + of_nat i)"
proof (induction k arbitrary: s i)
  case 0
  then show ?case by simp
next
  case (Suc k)
  show ?case
  proof (cases i)
    case 0
    then show ?thesis by simp
  next
    case (Suc j)
    with Suc.prems have "j < k" by simp
    from Suc.IH[OF this, of "s + 1"] Suc show ?thesis by (simp add: add.assoc)
  qed
qed

lemma write_back_eq:
  "length bs \<le> 2 ^ 64 \<Longrightarrow>
   write_back m d bs = (\<lambda>a. if unat (a - d) < length bs then bs ! unat (a - d) else m a)"
proof (induction bs arbitrary: m d)
  case Nil
  then show ?case by simp
next
  case (Cons b bs)
  have len: "length bs \<le> 2 ^ 64" "length bs < 2 ^ 64" using Cons.prems by auto
  show ?case
  proof
    fix a
    show "write_back m d (b # bs) a =
        (if unat (a - d) < length (b # bs) then (b # bs) ! unat (a - d) else m a)"
    proof (cases "a = d")
      case True
      have "unat (d - (d + 1)) = 2 ^ 64 - 1" by (simp add: unsigned_minus_1_eq_mask mask_eq_exp_minus_1)
      then show ?thesis using len True by (simp add: Cons.IH[OF len(1)])
    next
      case False
      then have k0: "a - d \<noteq> 0" by simp
      have "a - (d + 1) = (a - d) - 1" by (simp add: diff_diff_eq)
      then have u: "unat (a - (d + 1)) = unat (a - d) - 1"
        using unat_minus_one[OF k0] by (simp only:)
      have pos: "0 < unat (a - d)" using k0 by (simp add: unat_gt_0)
      show ?thesis using False pos
        by (auto simp add: Cons.IH[OF len(1)] u nth_Cons')
    qed
  qed
qed

lemma snapshot_then_write_moved: "snapshot_then_write m d s n = moved m d s n"
proof -
  have len: "length (snapshot m s (unat n)) \<le> 2 ^ 64"
    using ubnd[of n] by (simp add: snapshot_length)
  show ?thesis
    unfolding snapshot_then_write_def write_back_eq[OF len] moved_def
    by (auto simp: fun_eq_iff snapshot_length snapshot_nth word_less_nat_alt)
qed

subsection \<open>memcpy and memmove\<close>

lemma moved_same: "moved m d d n = m"
  by (auto simp: moved_def fun_eq_iff)

lemma memcpy_moved:
  "dest = src \<or> n \<le> dest - src \<Longrightarrow> memcpy m dest src n = (moved m dest src n, dest)"
  by (simp add: memcpy_def fwd_fast_moved)

lemma fwd_safe_lt:
  fixes d s n :: "64 word"
  assumes "valid_range s n" "d < s"
  shows "n \<le> d - s"
  using assms ubnd[of d] ubnd[of s] ubnd[of n]
  by (auto simp add: valid_range_def word_less_nat_alt word_le_nat_alt usub)

lemma fwd_safe_disjoint:
  fixes d s n :: "64 word"
  assumes "valid_range s n" "valid_range d n" "\<not> (s < d + n \<and> d < s + n)"
  shows "n \<le> d - s"
  using assms ubnd[of d] ubnd[of s] ubnd[of n]
  by (auto simp add: valid_range_def word_less_nat_alt word_le_nat_alt usub uadd)

lemma bwd_safe_gt:
  fixes d s n :: "64 word"
  assumes "valid_range d n" "s < d"
  shows "n \<le> s - d"
  using assms ubnd[of d] ubnd[of s] ubnd[of n]
  by (auto simp add: valid_range_def word_less_nat_alt word_le_nat_alt usub)

lemma memmove_moved:
  assumes vd: "valid_range dest n" and vs: "valid_range src n"
  shows "memmove x86_64 m dest src n = (moved m dest src n, dest)"
proof (cases "dest = src \<or> n = 0")
  case True
  then show ?thesis by (auto simp: memmove_def moved_same moved_0)
next
  case False
  then have ne: "dest \<noteq> src" and n0: "n \<noteq> 0" by auto
  show ?thesis
  proof (cases "src < dest + n \<and> dest < src + n")
    case ov: True
    show ?thesis
    proof (cases "dest < src")
      case True
      have safe: "dest = src \<or> n \<le> dest - src" using fwd_safe_lt[OF vs True] by simp
      show ?thesis using False ov True
        by (simp add: memmove_def fwd_fast_moved[OF safe] fwd_bytes_moved[OF safe])
    next
      case nlt: False
      with ne have "src < dest" by auto
      then have safe: "n \<le> src - dest" by (rule bwd_safe_gt[OF vd])
      show ?thesis using False ov nlt
        by (simp add: memmove_def bwd_bytes_moved[OF safe n0])
    qed
  next
    case nov: False
    have safe: "dest = src \<or> n \<le> dest - src" using fwd_safe_disjoint[OF vs vd nov] by simp
    show ?thesis using False nov
      by (auto simp add: memmove_def fwd_fast_moved[OF safe] fwd_bytes_moved[OF safe])
  qed
qed

subsection \<open>memcmp\<close>

lemma memcmp_0: "memcmp m p1 p2 0 = 0"
  by (simp add: memcmp.simps[of m p1 p2 0])

lemma memcmp_step:
  "n \<noteq> 0 \<Longrightarrow> memcmp m p1 p2 n =
     (if m p1 \<noteq> m p2 then uint (m p1) - uint (m p2) else memcmp m (p1 + 1) (p2 + 1) (n - 1))"
  by (subst memcmp.simps) simp

lemma succ_less:
  fixes i n :: "64 word"
  assumes "i < n - 1" "n \<noteq> 0"
  shows "i + 1 < n" "i + 1 \<noteq> 0"
  using assms ubnd[of n] ubnd[of i]
  by (auto simp add: word_less_nat_alt uadd unat_minus_one unat_eq_zero[symmetric] simp del: unat_eq_zero)

lemma pred_less:
  fixes k n :: "64 word"
  assumes "k < n" "k \<noteq> 0"
  shows "k - 1 < n - 1"
proof -
  from assms have n0: "n \<noteq> 0" by auto
  have "0 < unat k" using assms(2) by (simp add: unat_gt_0)
  moreover have "unat k < unat n" using assms(1) by (simp add: word_less_nat_alt)
  ultimately have "unat k - 1 < unat n - 1" by arith
  then show ?thesis
    by (simp only: word_less_nat_alt unat_minus_one[OF n0] unat_minus_one[OF assms(2)])
qed

lemma memcmp_equal:
  "(\<And>i. i < n \<Longrightarrow> m (a + i) = m (b + i)) \<Longrightarrow> memcmp m a b n = 0"
proof (induction m a b n rule: memcmp.induct)
  case (1 m p1 p2 n)
  show ?case
  proof (cases "n = 0")
    case True
    then show ?thesis by (simp add: memcmp_0)
  next
    case False
    then have "0 < n" by (simp add: word_neq_0_conv)
    from "1.prems"[OF this] have eq0: "m p1 = m p2" by simp
    have "memcmp m (p1 + 1) (p2 + 1) (n - 1) = 0"
    proof (rule "1.IH"[OF False])
      show "\<not> m p1 \<noteq> m p2" using eq0 by simp
      fix i assume "i < n - 1"
      then have "i + 1 < n" using False by (rule succ_less)
      from "1.prems"[OF this] show "m (p1 + 1 + i) = m (p2 + 1 + i)"
        by (simp add: add.commute add.left_commute)
    qed
    then show ?thesis using False eq0 by (simp add: memcmp_step)
  qed
qed

lemma memcmp_first_diff:
  "k < n \<Longrightarrow> m (a + k) \<noteq> m (b + k) \<Longrightarrow> (\<And>i. i < k \<Longrightarrow> m (a + i) = m (b + i)) \<Longrightarrow>
   memcmp m a b n = uint (m (a + k)) - uint (m (b + k))"
proof (induction m a b n arbitrary: k rule: memcmp.induct)
  case (1 m p1 p2 n)
  from "1.prems"(1) have n0: "n \<noteq> 0" by auto
  show ?case
  proof (cases "k = 0")
    case True
    then show ?thesis using "1.prems"(2) n0 by (simp add: memcmp_step)
  next
    case False
    then have "0 < k" by (simp add: word_neq_0_conv)
    from "1.prems"(3)[OF this] have eq0: "m p1 = m p2" by simp
    have k1: "k - 1 < n - 1" using "1.prems"(1) False by (rule pred_less)
    have ak: "p1 + 1 + (k - 1) = p1 + k" "p2 + 1 + (k - 1) = p2 + k" by simp_all
    have "memcmp m (p1 + 1) (p2 + 1) (n - 1) =
        uint (m (p1 + 1 + (k - 1))) - uint (m (p2 + 1 + (k - 1)))"
    proof (rule "1.IH"[OF n0 _ k1])
      show "\<not> m p1 \<noteq> m p2" using eq0 by simp
      show "m (p1 + 1 + (k - 1)) \<noteq> m (p2 + 1 + (k - 1))"
        unfolding ak by (rule "1.prems"(2))
      fix i assume "i < k - 1"
      then have "i + 1 < k" using False by (rule succ_less)
      from "1.prems"(3)[OF this] show "m (p1 + 1 + i) = m (p2 + 1 + i)"
        by (simp add: add.commute add.left_commute)
    qed
    then show ?thesis using n0 eq0 by (simp add: memcmp_step ak)
  qed
qed

lemma memcmp_swap: "memcmp m a b n = - memcmp m b a n"
proof (induction m a b n rule: memcmp.induct)
  case (1 m p1 p2 n)
  show ?case
  proof (cases "n = 0")
    case True
    then show ?thesis by (simp add: memcmp_0)
  next
    case False
    show ?thesis
    proof (cases "m p1 = m p2")
      case True
      with False "1.IH" show ?thesis by (simp add: memcmp_step)
    next
      case ne: False
      with False show ?thesis by (simp add: memcmp_step)
    qed
  qed
qed

text \<open>
  Claim C8. \<^verbatim>\<open>compare(a, b, n)\<close> returns 0 when the first \<open>n\<close> bytes of the two
  buffers agree; otherwise it returns the difference of the first differing byte pair,
  both read as unsigned values, which is positive exactly when the byte of \<open>a\<close> is
  the larger one. Hence \<^verbatim>\<open>compare(a, a, n) = 0\<close>, and swapping the buffers negates
  the result.
\<close>

theorem memcmp_spec:
  "((\<forall>i. i < n \<longrightarrow> m (a + i) = m (b + i)) \<longrightarrow> memcmp m a b n = 0) \<and>
   (\<forall>k. k < n \<and> m (a + k) \<noteq> m (b + k) \<and> (\<forall>i. i < k \<longrightarrow> m (a + i) = m (b + i)) \<longrightarrow>
        memcmp m a b n = uint (m (a + k)) - uint (m (b + k)) \<and>
        (0 < memcmp m a b n) = (m (b + k) < m (a + k))) \<and>
   memcmp m a a n = 0 \<and>
   memcmp m a b n = - memcmp m b a n"
proof (intro conjI allI impI)
  assume "\<forall>i. i < n \<longrightarrow> m (a + i) = m (b + i)"
  then show "memcmp m a b n = 0" by (intro memcmp_equal) simp
next
  fix k
  assume h: "k < n \<and> m (a + k) \<noteq> m (b + k) \<and> (\<forall>i. i < k \<longrightarrow> m (a + i) = m (b + i))"
  then show r: "memcmp m a b n = uint (m (a + k)) - uint (m (b + k))"
    by (intro memcmp_first_diff) auto
  show "(0 < memcmp m a b n) = (m (b + k) < m (a + k))"
    unfolding r by (simp add: word_less_def)
next
  show "memcmp m a a n = 0" by (rule memcmp_equal) simp
next
  show "memcmp m a b n = - memcmp m b a n" by (rule memcmp_swap)
qed

lemma word_lt_2: "(i :: 64 word) < 2 \<Longrightarrow> i = 0 \<or> i = 1"
proof -
  assume "i < 2"
  then have "unat i < 2" by (simp add: word_less_nat_alt)
  then have "unat i = unat (0 :: 64 word) \<or> unat i = unat (1 :: 64 word)" by auto
  then show ?thesis by (simp only: word_unat_eq_iff[symmetric])
qed

text \<open>
  The store \<open>mem0\<close> holds the bytes 1, 2, 3 at address 0 and 1, 2, 7 at address 8: the
  first difference is at offset 2.
\<close>

theorem memcmp_spec_witness:
  "memcmp mem0 0 8 3 = - 4 \<and> memcmp mem0 8 0 3 = 4 \<and> memcmp mem0 0 0 3 = 0"
proof -
  have eqs: "\<forall>i. i < 2 \<longrightarrow> mem0 (0 + i) = mem0 (8 + i)"
    using word_lt_2 by (auto simp: mem0_def)
  have d: "(2 :: 64 word) < 3 \<and> mem0 (0 + 2) \<noteq> mem0 (8 + 2)" by (simp add: mem0_def)
  from memcmp_spec[of 3 mem0 0 8] d eqs
  have "memcmp mem0 0 8 3 = uint (mem0 (0 + 2)) - uint (mem0 (8 + 2))"
    and "memcmp mem0 0 0 3 = 0" and "memcmp mem0 0 8 3 = - memcmp mem0 8 0 3"
    by blast+
  then show ?thesis by (simp add: mem0_def)
qed

subsection \<open>The claims about memmove\<close>

lemma disjoint_safe:
  fixes d s n :: "64 word"
  assumes "valid_range d n" "valid_range s n" "\<not> ranges_overlap d s n"
  shows "d = s \<or> n \<le> d - s"
  using assms ubnd[of d] ubnd[of s] ubnd[of n]
  by (auto simp add: valid_range_def ranges_overlap_def word_less_nat_alt word_le_nat_alt usub)

lemma moved_dest: "i < n \<Longrightarrow> moved m d s n (d + i) = m (s + i)"
  by (simp add: moved_def)

text \<open>
  Claim C1. For overlapping ranges \<open>dest\<close> and \<open>src\<close> of length \<open>n\<close>,
  \<^verbatim>\<open>move(dest, src, n)\<close> leaves the store exactly as the reference does that first
  snapshots the source into a scratch buffer and then writes the buffer to the
  destination; in particular every byte of \<open>dest[0..n)\<close> holds what \<open>src[0..n)\<close>
  held before the call, and the call returns \<open>dest\<close>. This holds for either setting of
  the compile-time branch. Both ranges are valid C object ranges.
\<close>

theorem memmove_overlap_snapshot:
  assumes "valid_range dest n" and "valid_range src n" and "ranges_overlap dest src n"
  shows "fst (memmove x86_64 m dest src n) = snapshot_then_write m dest src n \<and>
         (\<forall>i. i < n \<longrightarrow> fst (memmove x86_64 m dest src n) (dest + i) = m (src + i)) \<and>
         snd (memmove x86_64 m dest src n) = dest"
  using assms(1,2)
  by (simp add: memmove_moved snapshot_then_write_moved moved_dest)

lemma word_lt_3: "(i :: 64 word) < 3 \<Longrightarrow> i = 0 \<or> i = 1 \<or> i = 2"
proof -
  assume "i < 3"
  then have "unat i < 3" by (simp add: word_less_nat_alt)
  then have "unat i = unat (0 :: 64 word) \<or> unat i = unat (1 :: 64 word) \<or> unat i = unat (2 :: 64 word)"
    by auto
  then show ?thesis by (simp only: word_unat_eq_iff[symmetric])
qed

text \<open>
  A three-byte move from address 16 to address 17 in \<open>mem1\<close>: the ranges share two
  bytes and the destination starts after the source, so the copy runs backward.
\<close>

theorem memmove_overlap_snapshot_witness:
  "valid_range 17 3 \<and> valid_range 16 3 \<and> ranges_overlap 17 16 3 \<and>
   fst (memmove False mem1 17 16 3) 17 = 1 \<and>
   fst (memmove False mem1 17 16 3) 18 = 2 \<and>
   fst (memmove False mem1 17 16 3) 19 = 3 \<and>
   fst (memmove True mem1 17 16 3) = snapshot_then_write mem1 17 16 3 \<and>
   snd (memmove False mem1 17 16 3) = 17"
proof -
  have v: "valid_range 17 3" "valid_range 16 3" "ranges_overlap 17 16 3"
    by (simp_all add: valid_range_def ranges_overlap_def)
  note a = memmove_overlap_snapshot[OF v, of False mem1]
  note b = memmove_overlap_snapshot[OF v, of True mem1]
  from a have q: "\<And>i. i < 3 \<Longrightarrow> fst (memmove False mem1 17 16 3) (17 + i) = mem1 (16 + i)"
    by blast
  have "fst (memmove False mem1 17 16 3) 17 = mem1 16"
    "fst (memmove False mem1 17 16 3) 18 = mem1 17"
    "fst (memmove False mem1 17 16 3) 19 = mem1 18"
    using q[of 0] q[of 1] q[of 2] by simp_all
  then show ?thesis using v a b by (simp add: mem1_def)
qed

text \<open>
  Claim C2. For ranges that do not overlap, \<^verbatim>\<open>move\<close> and \<^verbatim>\<open>copy\<close> produce the same
  store and both return \<open>dest\<close>; the destination then holds the source bytes.
\<close>

theorem memmove_eq_memcpy_disjoint:
  assumes "valid_range dest n" and "valid_range src n" and "\<not> ranges_overlap dest src n"
  shows "memmove x86_64 m dest src n = memcpy m dest src n \<and>
         (\<forall>i. i < n \<longrightarrow> fst (memcpy m dest src n) (dest + i) = m (src + i)) \<and>
         snd (memmove x86_64 m dest src n) = dest \<and> snd (memcpy m dest src n) = dest"
  using assms(1,2) disjoint_safe[OF assms]
  by (simp add: memmove_moved memcpy_moved moved_dest)

theorem memmove_eq_memcpy_disjoint_witness:
  "valid_range 32 3 \<and> valid_range 16 3 \<and> \<not> ranges_overlap 32 16 3 \<and>
   memmove True mem1 32 16 3 = memcpy mem1 32 16 3 \<and>
   memmove False mem1 32 16 3 = memcpy mem1 32 16 3 \<and>
   fst (memcpy mem1 32 16 3) 34 = 3 \<and>
   snd (memcpy mem1 32 16 3) = 32"
proof -
  have v: "valid_range 32 3" "valid_range 16 3" "\<not> ranges_overlap 32 16 3"
    by (simp_all add: valid_range_def ranges_overlap_def)
  note a = memmove_eq_memcpy_disjoint[OF v, of True mem1]
  note b = memmove_eq_memcpy_disjoint[OF v, of False mem1]
  from a have q: "\<And>i. i < 3 \<Longrightarrow> fst (memcpy mem1 32 16 3) (32 + i) = mem1 (16 + i)"
    by blast
  have "fst (memcpy mem1 32 16 3) 34 = mem1 18" using q[of 2] by simp
  then show ?thesis using v a b by (simp add: mem1_def)
qed

section \<open>Properties of the numeric primitive engine\<close>

subsection \<open>Evaluating the arithmetic on concrete patterns\<close>

text \<open>
  The definitions of the value model, unfolded together, let the simplifier run the
  arithmetic on numerals; it needs the floor and the bit length of a numeral for that.
\<close>

lemmas fp_eval = dsign_def dexp_def dfrac_def d_nan_def d_inf_def d_zero_def pow2_def valof_def
  rne_def ilog2_def dround_mag_def dround_def d_qnan_def signed_zero_def signed_inf_def dneg_def
  dadd_def dsub_def dmul_def ddiv_def dlt_def dgt_def dle_def dge_def deq_def d2ll_def ll2d_def
  d_0_def d_half_def d_1_def d_1e_15_def Let_def fabs_def

lemma floor_rat_numeral [simp]: "\<lfloor>numeral a / numeral b :: rat\<rfloor> = numeral a div numeral b"
  using floor_divide_of_int_eq[of "numeral a" "numeral b", where ?'a = rat] by simp

lemma floor_rat_neg_numeral [simp]:
  "\<lfloor>- (numeral a / numeral b) :: rat\<rfloor> = - numeral a div numeral b"
  using floor_divide_of_int_eq[of "- numeral a" "numeral b", where ?'a = rat] by simp

lemma ceiling_rat_numeral [simp]:
  "\<lceil>numeral a / numeral b :: rat\<rceil> = - (- numeral a div numeral b)"
  unfolding ceiling_def by simp

lemma bitlen_numeral [simp]: "bitlen (numeral n) = bitlen (numeral n div 2) + 1"
  by (subst compute_bitlen) simp

lemma bitlen_1 [simp]: "bitlen 1 = 1"
  by (subst compute_bitlen) simp

text \<open>
  The patterns chosen for the literals are the doubles nearest to \<open>0\<close>, \<open>1/2\<close>, \<open>1\<close>
  and \<open>10^-15\<close>.
\<close>

lemma literals:
  "valof d_0 = 0" "valof d_half = 1 / 2" "valof d_1 = 1" "dround (1 / 10 ^ 15) = d_1e_15"
  by (simp_all add: fp_eval)

subsection \<open>Classification\<close>

text \<open>The header's bit tests agree with the IEEE 754 classes of the value model.\<close>

lemma isnan_d_nan: "isnan x = d_nan x"
  by (simp add: isnan_def d_nan_def dexp_def dfrac_def word_uint_eq_iff)

lemma isinf_d_inf: "isinf x = d_inf x"
  by (simp add: isinf_def d_inf_def dexp_def dfrac_def word_uint_eq_iff)

lemma isfinite_dexp: "isfinite x = (dexp x \<noteq> 2047)"
  by (simp add: isfinite_def dexp_def word_uint_eq_iff)

subsection \<open>fmin and fmax\<close>

text \<open>
  Claim C9. When exactly one argument of \<^verbatim>\<open>fmin\<close> or \<^verbatim>\<open>fmax\<close> is NaN, the other
  argument is returned. When neither is NaN, \<^verbatim>\<open>fmin\<close> returns one of its arguments,
  whose value is the smaller of the two values, and \<^verbatim>\<open>fmax\<close> one whose value is the
  larger (the two zeros have the same value, and an infinity lies beyond every finite
  double).
\<close>

theorem fmin_fmax_nan_tolerant:
  "(isnan x \<and> \<not> isnan y \<longrightarrow> fmin x y = y \<and> fmax x y = y) \<and>
   (\<not> isnan x \<and> isnan y \<longrightarrow> fmin x y = x \<and> fmax x y = x) \<and>
   (\<not> isnan x \<and> \<not> isnan y \<longrightarrow>
      (fmin x y = x \<or> fmin x y = y) \<and> valof (fmin x y) = min (valof x) (valof y) \<and>
      dle (fmin x y) x \<and> dle (fmin x y) y \<and>
      (fmax x y = x \<or> fmax x y = y) \<and> valof (fmax x y) = max (valof x) (valof y) \<and>
      dle x (fmax x y) \<and> dle y (fmax x y))"
  by (auto simp: fmin_def fmax_def dlt_def dgt_def dle_def isnan_d_nan min_def max_def)

theorem fmin_fmax_nan_tolerant_witness:
  "isnan 0x7FF8000000000000 \<and> \<not> isnan 0x3FF0000000000000 \<and> \<not> isnan 0x4000000000000000 \<and>
   fmin 0x7FF8000000000000 0x3FF0000000000000 = 0x3FF0000000000000 \<and>
   fmax 0x3FF0000000000000 0x7FF8000000000000 = 0x3FF0000000000000 \<and>
   valof (fmin 0x4000000000000000 0x3FF0000000000000) = 1 \<and>
   valof (fmax 0x4000000000000000 0x3FF0000000000000) = 2"
proof -
  have n: "isnan 0x7FF8000000000000" "\<not> isnan 0x3FF0000000000000" "\<not> isnan 0x4000000000000000"
    by (simp_all add: isnan_def)
  have v: "valof 0x4000000000000000 = 2" "valof 0x3FF0000000000000 = 1"
    by (simp_all add: fp_eval)
  from fmin_fmax_nan_tolerant[of "0x7FF8000000000000" "0x3FF0000000000000"] n
  have a: "fmin 0x7FF8000000000000 0x3FF0000000000000 = 0x3FF0000000000000" by blast
  from fmin_fmax_nan_tolerant[of "0x3FF0000000000000" "0x7FF8000000000000"] n
  have b: "fmax 0x3FF0000000000000 0x7FF8000000000000 = 0x3FF0000000000000" by blast
  from fmin_fmax_nan_tolerant[of "0x4000000000000000" "0x3FF0000000000000"] n
  have c: "valof (fmin 0x4000000000000000 0x3FF0000000000000) = min (valof 0x4000000000000000) (valof 0x3FF0000000000000)"
     "valof (fmax 0x4000000000000000 0x3FF0000000000000) = max (valof 0x4000000000000000) (valof 0x3FF0000000000000)"
    by blast+
  show ?thesis using n a b c by (simp add: v)
qed

text \<open>
  Claim C10. When both arguments are NaN, \<^verbatim>\<open>fmin\<close> and \<^verbatim>\<open>fmax\<close> return the second
  argument, which is a NaN.
\<close>

theorem fmin_fmax_both_nan:
  "isnan x \<and> isnan y \<longrightarrow>
     fmin x y = y \<and> fmax x y = y \<and> isnan (fmin x y) \<and> isnan (fmax x y)"
  by (simp add: fmin_def fmax_def)

theorem fmin_fmax_both_nan_witness:
  "isnan 0x7FF8000000000000 \<and> isnan 0xFFF0000000000001 \<and>
   fmin 0x7FF8000000000000 0xFFF0000000000001 = 0xFFF0000000000001 \<and>
   fmax 0x7FF8000000000000 0xFFF0000000000001 = 0xFFF0000000000001"
proof -
  have n: "isnan 0x7FF8000000000000" "isnan 0xFFF0000000000001"
    by (simp_all add: isnan_def)
  from fmin_fmax_both_nan[of "0x7FF8000000000000" "0xFFF0000000000001"] n
  show ?thesis by blast
qed

subsection \<open>sqrt\<close>

lemma newton_unfold:
  "newton x g = (if dgt (fabs (dsub (newton_next x g) g)) d_1e_15
     then newton x (newton_next x g) else Some (newton_next x g))"
  by (subst newton.simps) (simp only: Let_def newton_next_def)

text \<open>
  The run of the loop on \<open>4.0\<close>: the guesses are 2.5, 2.05, 2.000609756097561,
  2.0000000929222947, 2.000000000000002, 2.0 and again 2.0, where the loop stops.
\<close>

lemma sqrt4_next0: "newton_next 0x4010000000000000 0x4010000000000000 = 0x4004000000000000"
  by (simp add: newton_next_def fp_eval)

lemma sqrt4_test0: "dgt (fabs (dsub 0x4004000000000000 0x4010000000000000)) d_1e_15"
  by (simp add: fp_eval)

lemma sqrt4_loop0: "newton 0x4010000000000000 0x4010000000000000 = newton 0x4010000000000000 0x4004000000000000"
  by (subst newton_unfold) (simp only: sqrt4_next0 sqrt4_test0 if_True)

lemma sqrt4_next1: "newton_next 0x4010000000000000 0x4004000000000000 = 0x4000666666666666"
  by (simp add: newton_next_def fp_eval)

lemma sqrt4_test1: "dgt (fabs (dsub 0x4000666666666666 0x4004000000000000)) d_1e_15"
  by (simp add: fp_eval)

lemma sqrt4_loop1: "newton 0x4010000000000000 0x4004000000000000 = newton 0x4010000000000000 0x4000666666666666"
  by (subst newton_unfold) (simp only: sqrt4_next1 sqrt4_test1 if_True)

lemma sqrt4_next2: "newton_next 0x4010000000000000 0x4000666666666666 = 0x4000013FB013FB01"
  by (simp add: newton_next_def fp_eval)

lemma sqrt4_test2: "dgt (fabs (dsub 0x4000013FB013FB01 0x4000666666666666)) d_1e_15"
  by (simp add: fp_eval)

lemma sqrt4_loop2: "newton 0x4010000000000000 0x4000666666666666 = newton 0x4010000000000000 0x4000013FB013FB01"
  by (subst newton_unfold) (simp only: sqrt4_next2 sqrt4_test2 if_True)

lemma sqrt4_next3: "newton_next 0x4010000000000000 0x4000013FB013FB01 = 0x400000000C78C926"
  by (simp add: newton_next_def fp_eval)

lemma sqrt4_test3: "dgt (fabs (dsub 0x400000000C78C926 0x4000013FB013FB01)) d_1e_15"
  by (simp add: fp_eval)

lemma sqrt4_loop3: "newton 0x4010000000000000 0x4000013FB013FB01 = newton 0x4010000000000000 0x400000000C78C926"
  by (subst newton_unfold) (simp only: sqrt4_next3 sqrt4_test3 if_True)

lemma sqrt4_next4: "newton_next 0x4010000000000000 0x400000000C78C926 = 0x4000000000000005"
  by (simp add: newton_next_def fp_eval)

lemma sqrt4_test4: "dgt (fabs (dsub 0x4000000000000005 0x400000000C78C926)) d_1e_15"
  by (simp add: fp_eval)

lemma sqrt4_loop4: "newton 0x4010000000000000 0x400000000C78C926 = newton 0x4010000000000000 0x4000000000000005"
  by (subst newton_unfold) (simp only: sqrt4_next4 sqrt4_test4 if_True)

lemma sqrt4_next5: "newton_next 0x4010000000000000 0x4000000000000005 = 0x4000000000000000"
  by (simp add: newton_next_def fp_eval)

lemma sqrt4_test5: "dgt (fabs (dsub 0x4000000000000000 0x4000000000000005)) d_1e_15"
  by (simp add: fp_eval)

lemma sqrt4_loop5: "newton 0x4010000000000000 0x4000000000000005 = newton 0x4010000000000000 0x4000000000000000"
  by (subst newton_unfold) (simp only: sqrt4_next5 sqrt4_test5 if_True)

lemma sqrt4_next6: "newton_next 0x4010000000000000 0x4000000000000000 = 0x4000000000000000"
  by (simp add: newton_next_def fp_eval)

lemma sqrt4_test6: "\<not> dgt (fabs (dsub 0x4000000000000000 0x4000000000000000)) d_1e_15"
  by (simp add: fp_eval)

lemma sqrt4_loop6: "newton 0x4010000000000000 0x4000000000000000 = Some 0x4000000000000000"
  by (subst newton_unfold) (simp only: sqrt4_next6 sqrt4_test6 if_False)

lemma sqrt4_newton: "newton 0x4010000000000000 0x4010000000000000 = Some 0x4000000000000000"
  by (simp only: sqrt4_loop0 sqrt4_loop1 sqrt4_loop2 sqrt4_loop3 sqrt4_loop4 sqrt4_loop5 sqrt4_loop6)

lemma isnan_qnan: "isnan (ddiv d_0 d_0)"
  by (simp add: isnan_def fp_eval)

text \<open>
  Claim C7. \<^verbatim>\<open>sqrt(x)\<close> is NaN for \<open>x < 0\<close>; for \<open>x == 0\<close> it returns \<open>x\<close> itself, so
  the sign of a zero is kept and \<^verbatim>\<open>sqrt(0.0)\<close> is positive zero; and \<^verbatim>\<open>sqrt(4.0)\<close> is
  exactly \<open>2.0\<close>.
\<close>

theorem sqrt_spec:
  "(dlt x d_0 \<longrightarrow> (\<exists>r. sqrt_c x = Some r \<and> isnan r)) \<and>
   (deq x d_0 \<longrightarrow> sqrt_c x = Some x) \<and>
   sqrt_c 0 = Some 0 \<and>
   sqrt_c 0x4010000000000000 = Some 0x4000000000000000"
proof (intro conjI impI)
  assume "dlt x d_0"
  then show "\<exists>r. sqrt_c x = Some r \<and> isnan r" by (simp add: sqrt_c_def isnan_qnan)
next
  assume "deq x d_0"
  moreover from this have "\<not> dlt x d_0" by (auto simp: deq_def dlt_def)
  ultimately show "sqrt_c x = Some x" by (simp add: sqrt_c_def)
next
  show "sqrt_c 0 = Some 0" by (simp add: sqrt_c_def fp_eval)
next
  have "\<not> dlt 0x4010000000000000 d_0" "\<not> deq 0x4010000000000000 d_0" by (simp_all add: fp_eval)
  then show "sqrt_c 0x4010000000000000 = Some 0x4000000000000000"
    by (simp only: sqrt_c_def if_False sqrt4_newton)
qed

text \<open>The inputs \<open>-1.0\<close> and \<open>-0.0\<close>.\<close>

theorem sqrt_spec_witness:
  "dlt 0xBFF0000000000000 d_0 \<and> isnan (the (sqrt_c 0xBFF0000000000000)) \<and>
   deq 0x8000000000000000 d_0 \<and> sqrt_c 0x8000000000000000 = Some 0x8000000000000000"
proof -
  have h: "dlt 0xBFF0000000000000 d_0" "deq 0x8000000000000000 d_0" by (simp_all add: fp_eval)
  from sqrt_spec[of "0xBFF0000000000000"] h(1)
  have a: "\<exists>r. sqrt_c 0xBFF0000000000000 = Some r \<and> isnan r" by blast
  from sqrt_spec[of "0x8000000000000000"] h(2)
  have b: "sqrt_c 0x8000000000000000 = Some 0x8000000000000000" by blast
  from a have "isnan (the (sqrt_c 0xBFF0000000000000))" by auto
  with h b show ?thesis by simp
qed

subsection \<open>Powers of two and the binade exponent\<close>

lemma pow2_pos: "0 < pow2 e"
  by (simp add: pow2_def)

lemma pow2_add: "pow2 (a + b) = pow2 a * pow2 b"
proof -
  have "pow2 e = 2 powi e" for e
    by (simp add: pow2_def power_int_def field_simps)
  then show ?thesis by (simp add: power_int_add)
qed

lemma pow2_nat: "0 \<le> e \<Longrightarrow> pow2 e = 2 ^ nat e"
  by (simp add: pow2_def)

lemma pow2_0: "pow2 0 = 1"
  by (simp add: pow2_def)

lemma pow2_mono: "a \<le> b \<Longrightarrow> pow2 a \<le> pow2 b"
proof -
  assume "a \<le> b"
  then obtain c where c: "b = a + c" "0 \<le> c" by (metis add.commute diff_add_cancel diff_ge_0_iff_ge)
  have "1 \<le> pow2 c" using c(2) by (simp add: pow2_def)
  then show ?thesis using pow2_pos[of a] by (simp add: c pow2_add)
qed

lemma pow2_strict_mono: "a < b \<Longrightarrow> pow2 a < pow2 b"
proof -
  assume "a < b"
  then obtain c where c: "b = a + c" "0 < c" by (metis add.commute diff_add_cancel diff_gt_0_iff_gt)
  then have "(2::rat) ^ 1 \<le> 2 ^ nat c" by (intro power_increasing) auto
  then have "1 < pow2 c" using c(2) by (simp add: pow2_def)
  then show ?thesis using pow2_pos[of a] by (simp add: c pow2_add)
qed

lemma pow2_less_iff: "pow2 a < pow2 b \<longleftrightarrow> a < b"
proof
  assume "pow2 a < pow2 b"
  show "a < b"
  proof (rule ccontr)
    assume "\<not> a < b"
    then have "pow2 b \<le> pow2 a" by (intro pow2_mono) simp
    with \<open>pow2 a < pow2 b\<close> show False by simp
  qed
qed (rule pow2_strict_mono)

lemma pow2_of_int: "0 \<le> e \<Longrightarrow> pow2 e = of_int (2 ^ nat e)"
  by (simp add: pow2_def)

text \<open>ilog2 is the binade exponent.\<close>

lemma ilog2_bounds:
  assumes "0 < a"
  shows "pow2 (ilog2 a) \<le> a \<and> a < pow2 (ilog2 a + 1)"
proof (cases "1 \<le> a")
  case True
  define n where "n = \<lfloor>a\<rfloor>"
  have n1: "1 \<le> n" using True by (simp add: n_def le_floor_iff)
  then have n0: "0 < n" by simp
  have b1: "1 \<le> bitlen n" using n0 by (simp add: bitlen_alt_def)
  from bitlen_bounds[OF n0] have lo: "2 ^ nat (bitlen n - 1) \<le> n" and hi: "n < 2 ^ nat (bitlen n)"
    by auto
  have il: "ilog2 a = bitlen n - 1" using True by (simp add: ilog2_def n_def)
  have "pow2 (bitlen n - 1) = of_int (2 ^ nat (bitlen n - 1))" using b1 by (simp add: pow2_of_int)
  also have "\<dots> \<le> of_int n" using lo by (simp only: of_int_le_iff)
  also have "\<dots> \<le> a" by (simp add: n_def)
  finally have A: "pow2 (ilog2 a) \<le> a" by (simp add: il)
  have "n + 1 \<le> 2 ^ nat (bitlen n)" using hi by simp
  then have "of_int (n + 1) \<le> (of_int (2 ^ nat (bitlen n)) :: rat)" by (simp only: of_int_le_iff)
  moreover have "a < of_int (n + 1)" using floor_correct[of a] by (simp add: n_def)
  ultimately have "a < of_int (2 ^ nat (bitlen n))" by simp
  also have "\<dots> = pow2 (bitlen n)" using b1 by (simp add: pow2_of_int)
  finally have B: "a < pow2 (ilog2 a + 1)" by (simp add: il)
  from A B show ?thesis ..
next
  case False
  then have a1: "a < 1" by simp
  define b where "b = 1 / a"
  have b1: "1 < b" using assms a1 by (simp add: b_def)
  define n where "n = \<lceil>b\<rceil> - 1"
  have nb: "of_int n < b" "b \<le> of_int n + 1"
    unfolding n_def using ceiling_correct[of b] by auto
  have n1: "1 \<le> n" using b1 nb(2) by (simp add: n_def less_ceiling_iff)
  then have n0: "0 < n" by simp
  have bl1: "1 \<le> bitlen n" using n0 by (simp add: bitlen_alt_def)
  from bitlen_bounds[OF n0] have lo: "2 ^ nat (bitlen n - 1) \<le> n" and hi: "n < 2 ^ nat (bitlen n)"
    by auto
  have il: "ilog2 a = - bitlen n" using False by (simp add: ilog2_def n_def b_def)
  have "n + 1 \<le> 2 ^ nat (bitlen n)" using hi by simp
  then have "of_int (n + 1) \<le> (of_int (2 ^ nat (bitlen n)) :: rat)" by (simp only: of_int_le_iff)
  with nb(2) have "b \<le> 2 ^ nat (bitlen n)" by simp
  then have "1 / 2 ^ nat (bitlen n) \<le> 1 / b" using b1 by (simp add: field_simps)
  moreover have "pow2 (- bitlen n) = 1 / 2 ^ nat (bitlen n)" using bl1 by (simp add: pow2_def)
  moreover have "1 / b = a" by (simp add: b_def)
  ultimately have A: "pow2 (ilog2 a) \<le> a" by (simp add: il)
  have "(of_int (2 ^ nat (bitlen n - 1)) :: rat) \<le> of_int n" using lo by (simp only: of_int_le_iff)
  then have "(2 :: rat) ^ nat (bitlen n - 1) \<le> of_int n" by simp
  with nb(1) have "2 ^ nat (bitlen n - 1) < b" by linarith
  then have "1 / b < 1 / 2 ^ nat (bitlen n - 1)" using b1 by (simp add: field_simps)
  moreover have "pow2 (- bitlen n + 1) = 1 / 2 ^ nat (bitlen n - 1)"
    using bl1 by (cases "bitlen n = 1") (auto simp add: pow2_def)
  moreover have "1 / b = a" by (simp add: b_def)
  ultimately have B: "a < pow2 (ilog2 a + 1)" by (simp add: il)
  from A B show ?thesis ..
qed

lemma ilog2_unique:
  assumes "pow2 k \<le> a" "a < pow2 (k + 1)"
  shows "ilog2 a = k"
proof -
  have a0: "0 < a" using assms(1) pow2_pos[of k] by simp
  from ilog2_bounds[OF a0] have b: "pow2 (ilog2 a) \<le> a" "a < pow2 (ilog2 a + 1)" by auto
  have "pow2 k < pow2 (ilog2 a + 1)" using assms(1) b(2) by simp
  then have 1: "k < ilog2 a + 1" by (simp add: pow2_less_iff)
  have "pow2 (ilog2 a) < pow2 (k + 1)" using assms(2) b(1) by simp
  then have 2: "ilog2 a < k + 1" by (simp add: pow2_less_iff)
  from 1 2 show ?thesis by simp
qed

lemma rne_of_int: "rne (of_int n) = n"
  by (simp add: rne_def)

subsection \<open>Decoding the fields of a pattern\<close>

lemma uint_bound64: "0 \<le> uint (x :: 64 word) \<and> uint x < 2 ^ 64"
  using uint_lt2p[of x] by simp

lemma dexp_uint: "dexp x = (uint x div 2 ^ 52) mod 2 ^ 11"
proof -
  have m: "(0x7FF :: 64 word) = mask 11" by (simp add: mask_eq_exp_minus_1)
  have "drop_bit 52 x AND 0x7FF = take_bit 11 (drop_bit 52 x)"
    unfolding m by (simp only: take_bit_eq_mask)
  then have "dexp x = take_bit 11 (drop_bit 52 (take_bit 64 (uint x)))"
    by (simp add: dexp_def unsigned_take_bit_eq unsigned_drop_bit_eq)
  also have "take_bit 64 (uint x) = uint x"
    using uint_bound64[of x] by (intro take_bit_int_eq_self) auto
  finally show ?thesis by (simp add: take_bit_eq_mod drop_bit_eq_div)
qed

lemma dfrac_uint: "dfrac x = uint x mod 2 ^ 52"
proof -
  have m: "(0xFFFFFFFFFFFFF :: 64 word) = mask 52" by (simp add: mask_eq_exp_minus_1)
  have "x AND 0xFFFFFFFFFFFFF = take_bit 52 x"
    unfolding m by (simp only: take_bit_eq_mask)
  then have "dfrac x = take_bit 52 (uint x)"
    by (simp add: dfrac_def unsigned_take_bit_eq)
  then show ?thesis by (simp add: take_bit_eq_mod)
qed

lemma dsign_uint: "dsign x = (2 ^ 63 \<le> uint x)"
proof -
  have "bit x 63 = bit (uint x) 63" by (simp add: bit_uint_iff)
  also have "\<dots> = odd (uint x div 2 ^ 63)" by (simp add: bit_iff_odd)
  also have "\<dots> = (2 ^ 63 \<le> uint x)"
  proof -
    have "uint x div 2 ^ 63 = 0 \<or> uint x div 2 ^ 63 = 1" using uint_bound64[of x] by auto
    moreover have "(uint x div 2 ^ 63 = 0) = (uint x < 2 ^ 63)" using uint_bound64[of x] by auto
    ultimately show ?thesis by auto
  qed
  finally show ?thesis by (simp add: dsign_def)
qed

lemma uint_pattern: "0 \<le> b \<Longrightarrow> b < 2 ^ 64 \<Longrightarrow> uint (word_of_int b :: 64 word) = b"
  by (simp add: uint_word_of_int)

lemma uint_neg_pattern:
  assumes "0 \<le> b" "b < 2 ^ 63"
  shows "uint (0x8000000000000000 OR word_of_int b :: 64 word) = 2 ^ 63 + b"
proof -
  have "uint (0x8000000000000000 OR word_of_int b :: 64 word) = 2 ^ 63 OR b"
    using assms by (simp add: unsigned_or_eq uint_word_of_int)
  also have "\<dots> = take_bit 63 b OR push_bit 63 1"
    using assms by (simp add: take_bit_int_eq_self or.commute)
  also have "\<dots> = take_bit 63 b + push_bit 63 1"
    using concat_bit_eq[of 63 b 1] by (simp add: concat_bit_def)
  finally show ?thesis using assms by (simp add: take_bit_int_eq_self)
qed

lemma fields_pos:
  assumes "0 \<le> b" "b < 2 ^ 63"
  shows "dexp (word_of_int b) = b div 2 ^ 52" "dfrac (word_of_int b) = b mod 2 ^ 52"
    "\<not> dsign (word_of_int b)"
proof -
  have u: "uint (word_of_int b :: 64 word) = b" using assms by (intro uint_pattern) auto
  have "b div 2 ^ 52 < 2 ^ 11" using assms by simp
  moreover have "0 \<le> b div 2 ^ 52" using assms by simp
  ultimately show "dexp (word_of_int b) = b div 2 ^ 52" by (simp add: dexp_uint u)
  show "dfrac (word_of_int b) = b mod 2 ^ 52" by (simp add: dfrac_uint u)
  show "\<not> dsign (word_of_int b)" using assms by (simp add: dsign_uint u)
qed

lemma split_fields:
  fixes f c P :: int
  assumes "0 \<le> f" "f < P"
  shows "(f + c * P) div P = c" "(f + c * P) mod P = f"
  using assms by simp_all

lemma fields_neg:
  assumes "0 \<le> b" "b < 2 ^ 63"
  shows "dexp (0x8000000000000000 OR word_of_int b) = b div 2 ^ 52"
    "dfrac (0x8000000000000000 OR word_of_int b) = b mod 2 ^ 52"
    "dsign (0x8000000000000000 OR word_of_int b)"
proof -
  have u: "uint (0x8000000000000000 OR word_of_int b :: 64 word) = 2 ^ 63 + b"
    using assms by (rule uint_neg_pattern)
  have s: "(2 ^ 63 + b :: int) = b + 2 ^ 11 * 2 ^ 52" by simp
  have d: "(b + 2 ^ 11 * 2 ^ 52) div 2 ^ 52 = 2 ^ 11 + b div (2 ^ 52 :: int)"
    by (rule div_mult_self1) simp
  have r: "(b + 2 ^ 11 * 2 ^ 52) mod 2 ^ 52 = b mod (2 ^ 52 :: int)"
    by (rule mod_mult_self1)
  have k: "0 \<le> b div 2 ^ 52" "b div 2 ^ 52 < 2 ^ 11" using assms by simp_all
  have "dexp (0x8000000000000000 OR word_of_int b) = (2 ^ 11 + b div 2 ^ 52) mod 2 ^ 11"
    unfolding dexp_uint u s d ..
  also have "\<dots> = (b div 2 ^ 52) mod 2 ^ 11" by (rule mod_add_self1)
  also have "\<dots> = b div 2 ^ 52" using k by (rule mod_pos_pos_trivial)
  finally show "dexp (0x8000000000000000 OR word_of_int b) = b div 2 ^ 52" .
  show "dfrac (0x8000000000000000 OR word_of_int b) = b mod 2 ^ 52"
    unfolding dfrac_uint u s r ..
  show "dsign (0x8000000000000000 OR word_of_int b)" using assms by (simp add: dsign_uint u)
qed

lemma valof_pos: "0 \<le> b \<Longrightarrow> b < 2 ^ 63 \<Longrightarrow> valof (word_of_int b) = mag_val b"
  by (simp add: valof_def fields_pos mag_val_def)

lemma valof_neg:
  "0 \<le> b \<Longrightarrow> b < 2 ^ 63 \<Longrightarrow> valof (0x8000000000000000 OR word_of_int b) = - mag_val b"
  by (simp add: valof_def fields_neg mag_val_def)

subsection \<open>Rounding is exact on representable values\<close>

lemma pow2_53: "pow2 53 = 2 ^ 53" and pow2_52: "pow2 52 = 2 ^ 52"
  by (simp_all add: pow2_def)

lemma dround_mag_exact:
  assumes m: "0 < m" "m < 2 ^ 53" and e: "- 1074 \<le> e" "e \<le> 971"
    and a: "a = of_int m * pow2 e"
  shows "0 \<le> dround_mag a \<and> dround_mag a < 0x7FF0000000000000 \<and> mag_val (dround_mag a) = a"
proof -
  have a0: "0 < a" using m(1) pow2_pos[of e] by (simp add: a)
  define k where "k = ilog2 a"
  from ilog2_bounds[OF a0] have kb: "pow2 k \<le> a" "a < pow2 (k + 1)" by (auto simp: k_def)
  have "of_int m < (2 ^ 53 :: rat)" using m(2) by (metis of_int_less_iff of_int_numeral of_int_power)
  then have "a < 2 ^ 53 * pow2 e" using pow2_pos[of e] by (simp add: a)
  also have "\<dots> = pow2 (e + 53)" by (simp only: pow2_add pow2_53 mult.commute)
  finally have "pow2 k < pow2 (e + 53)" using kb(1) by simp
  then have ke: "k \<le> e + 52" by (simp add: pow2_less_iff)
  define E where "E = max k (- 1022)"
  have Ee: "E \<le> e + 52" "- 1022 \<le> E" "k \<le> E" "E \<le> 1023" using ke e by (auto simp: E_def)
  define M0 where "M0 = m * 2 ^ nat (e + 52 - E)"
  have "pow2 e = pow2 (e + 52 - E) * pow2 (E - 52)" by (simp add: pow2_add[symmetric])
  then have "a / pow2 (E - 52) = of_int m * pow2 (e + 52 - E)"
    using pow2_pos[of "E - 52"] by (simp add: a)
  also have "\<dots> = of_int M0" using Ee(1) by (simp add: M0_def pow2_nat)
  finally have q: "a / pow2 (E - 52) = of_int M0" .
  then have aM: "a = of_int M0 * pow2 (E - 52)" using pow2_pos[of "E - 52"] by (simp add: field_simps)
  have "a < pow2 (E + 1)" using kb(2) pow2_mono[of "k + 1" "E + 1"] Ee(3) by simp
  also have "\<dots> = 2 ^ 53 * pow2 (E - 52)"
    using pow2_add[of 53 "E - 52"] by (simp add: pow2_53 add.commute)
  finally have "of_int M0 < (2 ^ 53 :: rat)" using pow2_pos[of "E - 52"] by (simp add: aM)
  then have Mhi: "M0 < 2 ^ 53" by (metis of_int_less_iff of_int_numeral of_int_power)
  have M0pos: "0 < M0" using m(1) by (simp add: M0_def)
  have Mlo: "2 ^ 52 \<le> M0" if "E = k"
  proof -
    have "2 ^ 52 * pow2 (E - 52) = pow2 E"
      using pow2_add[of 52 "E - 52"] by (simp add: pow2_52)
    also have "\<dots> \<le> a" using kb(1) that by simp
    finally have "(2 ^ 52 :: rat) \<le> of_int M0" using pow2_pos[of "E - 52"] by (simp add: aM)
    then show ?thesis by (metis of_int_le_iff of_int_numeral of_int_power)
  qed
  define b where "b = (E + 1022) * 2 ^ 52 + M0"
  have dm: "dround_mag a = (if 0x7FF0000000000000 \<le> b then 0x7FF0000000000000 else b)"
    using a0 by (simp add: dround_mag_def Let_def k_def[symmetric] E_def[symmetric] q rne_of_int b_def)
  have b0: "0 \<le> b" using Ee(2) M0pos by (simp add: b_def)
  have "(E + 1022) * 2 ^ 52 \<le> 2045 * 2 ^ 52" using Ee(4) by simp
  then have bhi: "b < 0x7FF0000000000000" using Mhi by (simp add: b_def)
  have val: "mag_val b = a"
  proof (cases "2 ^ 52 \<le> M0")
    case True
    define f where "f = M0 - 2 ^ 52"
    have f: "0 \<le> f" "f < 2 ^ 52" using True Mhi by (auto simp: f_def)
    have bf: "b = f + (E + 1023) * 2 ^ 52" by (simp add: b_def f_def algebra_simps)
    have d: "b div 2 ^ 52 = E + 1023" unfolding bf using f by (rule split_fields)
    have r: "b mod 2 ^ 52 = f" unfolding bf using f by (rule split_fields)
    have "max (E + 1023) 1 - 1075 = E - 52" using Ee(2) by simp
    moreover have "rat_of_int (2 ^ 52 + f) = of_int M0" by (simp add: f_def)
    ultimately show ?thesis using Ee(2) unfolding mag_val_def d r aM by simp
  next
    case False
    then have "E \<noteq> k" using Mlo by auto
    then have E: "E = - 1022" by (auto simp: E_def)
    have bM: "b = M0" by (simp add: b_def E)
    have d: "b div 2 ^ 52 = 0" using False M0pos by (simp add: bM)
    have r: "b mod 2 ^ 52 = M0" using False M0pos by (simp add: bM)
    show ?thesis unfolding mag_val_def d r aM E by simp
  qed
  show ?thesis using b0 bhi val by (simp add: dm)
qed

lemma dround_exact:
  assumes "\<bar>q\<bar> = of_int m * pow2 e" "0 < m" "m < 2 ^ 53" "- 1074 \<le> e" "e \<le> 971"
  shows "valof (dround q) = q \<and> dexp (dround q) \<noteq> 2047"
proof -
  from dround_mag_exact[OF assms(2-5) assms(1)]
  have b: "0 \<le> dround_mag \<bar>q\<bar>" "dround_mag \<bar>q\<bar> < 0x7FF0000000000000" "mag_val (dround_mag \<bar>q\<bar>) = \<bar>q\<bar>"
    by auto
  then have b63: "dround_mag \<bar>q\<bar> < 2 ^ 63" by simp
  have ex: "dround_mag \<bar>q\<bar> div 2 ^ 52 \<noteq> 2047" using b(1,2) by simp
  show ?thesis
  proof (cases "q < 0")
    case True
    then have "\<bar>q\<bar> = - q" by simp
    with b b63 ex True show ?thesis
      by (simp add: dround_def valof_neg fields_neg)
  next
    case False
    then have "\<bar>q\<bar> = q" by simp
    with b b63 ex False show ?thesis
      by (simp add: dround_def valof_pos fields_pos)
  qed
qed

subsection \<open>trunc, floor and ceil within the range of long long\<close>

lemma field_bounds: "0 \<le> dexp x" "dexp x < 2048" "0 \<le> dfrac x" "dfrac x < 2 ^ 52"
  using uint_bound64[of x] by (simp_all add: dexp_uint dfrac_uint)

lemma valof_decomp: "valof x = (if dsign x then - 1 else 1) * of_int (mant x) * pow2 (expo x)"
  by (simp add: valof_def mant_def expo_def)

lemma abs_valof: "\<bar>valof x\<bar> = of_int (mant x) * pow2 (expo x)"
proof -
  have "0 \<le> mant x" using field_bounds[of x] by (simp add: mant_def)
  then have "\<bar>rat_of_int (mant x)\<bar> = of_int (mant x)" by simp
  moreover have "\<bar>pow2 (expo x)\<bar> = pow2 (expo x)" using pow2_pos[of "expo x"] by simp
  ultimately show ?thesis by (simp add: valof_decomp abs_mult)
qed

lemma mant_bounds: "0 \<le> mant x" "mant x < 2 ^ 53"
  using field_bounds[of x] by (simp_all add: mant_def)

lemma expo_bounds: "- 1074 \<le> expo x" "dexp x \<noteq> 2047 \<Longrightarrow> expo x \<le> 971"
  using field_bounds[of x] by (auto simp add: expo_def)

lemma valof_zero_pattern: "valof 0 = 0" "dexp 0 = 0"
  by (simp_all add: fp_eval)

text \<open>A double of magnitude at least \<open>2^52\<close> is an integer.\<close>

lemma large_is_int:
  assumes "2 ^ 52 \<le> \<bar>valof x\<bar>"
  shows "\<exists>k. valof x = of_int k"
proof -
  have "of_int (mant x) < (2 ^ 53 :: rat)"
    using mant_bounds(2)[of x] by (metis of_int_less_iff of_int_numeral of_int_power)
  then have "of_int (mant x) * pow2 (expo x) < 2 ^ 53 * pow2 (expo x)"
    using pow2_pos[of "expo x"] by simp
  with assms have "(2 ^ 52 :: rat) < 2 ^ 53 * pow2 (expo x)" by (simp add: abs_valof)
  then have "pow2 (- 1) < pow2 (expo x)" by (simp add: pow2_def)
  then have e0: "0 \<le> expo x" by (simp add: pow2_less_iff)
  then have "pow2 (expo x) = of_int (2 ^ nat (expo x))" by (rule pow2_of_int)
  then have "valof x = of_int ((if dsign x then - 1 else 1) * mant x * 2 ^ nat (expo x))"
    by (simp add: valof_decomp)
  then show ?thesis ..
qed

lemma ll2d_small:
  assumes "\<bar>k\<bar> < 2 ^ 53"
  shows "valof (ll2d k) = of_int k \<and> dexp (ll2d k) \<noteq> 2047"
proof (cases "k = 0")
  case True
  then show ?thesis by (simp add: ll2d_def valof_zero_pattern)
next
  case False
  have "\<bar>rat_of_int k\<bar> = of_int \<bar>k\<bar> * pow2 0" by (simp add: pow2_0)
  from dround_exact[OF this] False assms show ?thesis by (simp add: ll2d_def)
qed

lemma ll2d_of_double:
  assumes "dexp x \<noteq> 2047" "valof x = of_int k"
  shows "valof (ll2d k) = of_int k \<and> dexp (ll2d k) \<noteq> 2047"
proof (cases "k = 0")
  case True
  then show ?thesis by (simp add: ll2d_def valof_zero_pattern)
next
  case False
  have a: "\<bar>rat_of_int k\<bar> = of_int (mant x) * pow2 (expo x)"
    using abs_valof[of x] by (simp add: assms(2))
  have "mant x \<noteq> 0" using a False by auto
  then have m0: "0 < mant x" using mant_bounds(1)[of x] by simp
  from dround_exact[OF a m0 mant_bounds(2) expo_bounds(1) expo_bounds(2)[OF assms(1)]] False
  show ?thesis by (simp add: ll2d_def)
qed

lemma tz_abs_le: "\<bar>rat_of_int (tz v)\<bar> \<le> \<bar>v\<bar>"
proof (cases "0 \<le> v")
  case True
  then have "0 \<le> \<lfloor>v\<rfloor>" by simp
  then show ?thesis using True by (simp add: tz_def)
next
  case False
  then have "\<lceil>v\<rceil> \<le> 0" by (simp add: ceiling_le_iff)
  then have "\<bar>rat_of_int \<lceil>v\<rceil>\<bar> = - of_int \<lceil>v\<rceil>" by simp
  then show ?thesis using False by (simp add: tz_def)
qed

lemma tz_of_int: "tz (of_int k) = k"
  by (simp add: tz_def)

lemma trunc_in_range:
  assumes fin: "dexp x \<noteq> 2047" and lo: "- (2 ^ 63) \<le> valof x" and hi: "valof x < 2 ^ 63"
  shows "trunc x = Some (ll2d (tz (valof x))) \<and>
         valof (ll2d (tz (valof x))) = of_int (tz (valof x)) \<and>
         dexp (ll2d (tz (valof x))) \<noteq> 2047"
proof -
  define v where "v = valof x"
  define t where "t = tz v"
  have nn: "\<not> d_nan x" "\<not> d_inf x" using fin by (simp_all add: d_nan_def d_inf_def)
  have t_lo: "- (2 ^ 63) \<le> t"
  proof (cases "0 \<le> v")
    case True
    then have "0 \<le> \<lfloor>v\<rfloor>" by simp
    then show ?thesis using True by (simp add: t_def tz_def)
  next
    case False
    have "rat_of_int (- (2 ^ 63)) \<le> v" using lo by (simp add: v_def)
    then have "- (2 ^ 63) \<le> \<lceil>v\<rceil>" by (meson ceiling_mono ceiling_of_int order_trans le_of_int_ceiling of_int_le_iff)
    then show ?thesis using False by (simp add: t_def tz_def)
  qed
  have t_hi: "t < 2 ^ 63"
  proof (cases "0 \<le> v")
    case True
    have "v < rat_of_int (2 ^ 63)" using hi by (simp add: v_def)
    then have "\<lfloor>v\<rfloor> < 2 ^ 63" by (simp only: floor_less_iff)
    then show ?thesis using True by (simp add: t_def tz_def)
  next
    case False
    then have "\<lceil>v\<rceil> \<le> 0" by (simp add: ceiling_le_iff)
    then show ?thesis using False by (simp add: t_def tz_def)
  qed
  have d: "d2ll x = Some t"
    using nn t_lo t_hi by (simp add: d2ll_def Let_def t_def tz_def v_def)
  have tr: "trunc x = Some (ll2d t)" by (simp add: trunc_def d)
  have ex: "valof (ll2d t) = of_int t \<and> dexp (ll2d t) \<noteq> 2047"
  proof (cases "\<bar>v\<bar> < 2 ^ 53")
    case True
    with tz_abs_le[of v] have "\<bar>rat_of_int t\<bar> < 2 ^ 53" by (simp add: t_def)
    then have "rat_of_int \<bar>t\<bar> < of_int (2 ^ 53)" by simp
    then have "\<bar>t\<bar> < 2 ^ 53" by (simp only: of_int_less_iff)
    then show ?thesis by (rule ll2d_small)
  next
    case False
    then have "2 ^ 52 \<le> \<bar>valof x\<bar>" by (simp add: v_def)
    from large_is_int[OF this] obtain k where k: "valof x = of_int k" ..
    then have "t = k" by (simp add: t_def v_def tz_of_int)
    with ll2d_of_double[OF fin k] show ?thesis by simp
  qed
  show ?thesis using tr ex by (simp add: t_def v_def)
qed

lemma d_1_facts: "valof d_1 = 1" "dexp d_1 \<noteq> 2047" "valof (dneg d_1) = - 1" "dexp (dneg d_1) \<noteq> 2047"
  by (simp_all add: fp_eval)

lemma not_int_small:
  assumes "valof x \<noteq> of_int \<lfloor>valof x\<rfloor>"
  shows "\<bar>valof x\<bar> < 2 ^ 52"
proof (rule ccontr)
  assume "\<not> \<bar>valof x\<bar> < 2 ^ 52"
  then have "2 ^ 52 \<le> \<bar>valof x\<bar>" by simp
  from large_is_int[OF this] obtain k where "valof x = of_int k" ..
  with assms show False by simp
qed

lemma dadd_exact:
  assumes x: "dexp x \<noteq> 2047" and y: "dexp y \<noteq> 2047"
    and s: "valof x + valof y = of_int k" and k: "k \<noteq> 0" "\<bar>k\<bar> < 2 ^ 53"
  shows "valof (dadd x y) = of_int k \<and> dexp (dadd x y) \<noteq> 2047"
proof -
  have nn: "\<not> d_nan x" "\<not> d_inf x" "\<not> d_nan y" "\<not> d_inf y"
    using x y by (simp_all add: d_nan_def d_inf_def)
  have "\<bar>rat_of_int k\<bar> = of_int \<bar>k\<bar> * pow2 0" by (simp add: pow2_0)
  from dround_exact[OF this] k
  have "valof (dround (of_int k)) = of_int k \<and> dexp (dround (of_int k)) \<noteq> 2047" by simp
  then show ?thesis using nn k(1) by (simp add: dadd_def Let_def s)
qed

lemma floor_in_range:
  assumes fin: "dexp x \<noteq> 2047" and lo: "- (2 ^ 63) \<le> valof x" and hi: "valof x < 2 ^ 63"
  shows "\<exists>f. floor_c x = Some f \<and> valof f = of_int \<lfloor>valof x\<rfloor> \<and> dexp f \<noteq> 2047"
proof -
  define v where "v = valof x"
  define t where "t = tz v"
  define td where "td = ll2d t"
  from trunc_in_range[OF assms]
  have tr: "trunc x = Some td" and vt: "valof td = of_int t" and ft: "dexp td \<noteq> 2047"
    by (simp_all add: td_def t_def v_def)
  have nn: "\<not> d_nan x" "\<not> d_nan td" using fin ft by (simp_all add: d_nan_def)
  have gt: "dgt td x = (v < of_int t)" using nn by (simp add: dgt_def dlt_def vt v_def)
  show ?thesis
  proof (cases "v < of_int t")
    case True
    have neg: "v < 0"
    proof (rule ccontr)
      assume "\<not> v < 0"
      then have "t = \<lfloor>v\<rfloor>" by (simp add: t_def tz_def)
      then have "of_int t \<le> v" by simp
      with True show False by simp
    qed
    then have tc: "t = \<lceil>v\<rceil>" by (simp add: t_def tz_def)
    have ni: "v \<noteq> of_int \<lfloor>v\<rfloor>"
    proof
      assume "v = of_int \<lfloor>v\<rfloor>"
      then have "of_int \<lceil>v\<rceil> = v" using ceiling_of_int[of "\<lfloor>v\<rfloor>", where ?'a = rat] by simp
      with True tc show False by simp
    qed
    then have fl: "\<lfloor>v\<rfloor> = t - 1"
      by (simp add: tc ceiling_altdef)
    have small: "\<bar>v\<bar> < 2 ^ 52" using not_int_small[of x] ni by (simp add: v_def)
    have "\<bar>rat_of_int t\<bar> \<le> \<bar>v\<bar>" unfolding t_def by (rule tz_abs_le)
    with small have "\<bar>rat_of_int t\<bar> < of_int (2 ^ 52)" by simp
    then have "rat_of_int \<bar>t\<bar> < of_int (2 ^ 52)" by simp
    then have ta: "\<bar>t\<bar> < 2 ^ 52" by (simp only: of_int_less_iff)
    have t0: "t \<le> 0" using neg by (simp add: tc ceiling_le_iff)
    have s: "valof td + valof (dneg d_1) = of_int (t - 1)" by (simp add: vt d_1_facts)
    have "valof (dadd td (dneg d_1)) = of_int (t - 1) \<and> dexp (dadd td (dneg d_1)) \<noteq> 2047"
      by (rule dadd_exact[OF ft d_1_facts(4) s]) (use t0 ta in auto)
    then show ?thesis using True by (simp add: floor_c_def tr gt dsub_def fl v_def[symmetric])
  next
    case False
    have "\<lfloor>v\<rfloor> = t"
    proof (cases "0 \<le> v")
      case True
      then show ?thesis by (simp add: t_def tz_def)
    next
      case neg: False
      then have tc: "t = \<lceil>v\<rceil>" by (simp add: t_def tz_def)
      have "of_int \<lceil>v\<rceil> \<le> v" using False tc by simp
      then have "of_int \<lceil>v\<rceil> = v" using le_of_int_ceiling[of v] by simp
      then have "v = of_int \<lfloor>v\<rfloor>" by (metis floor_of_int)
      then show ?thesis using tc by (simp add: ceiling_altdef)
    qed
    then show ?thesis using False by (simp add: floor_c_def tr gt vt ft v_def[symmetric])
  qed
qed

lemma ceil_in_range:
  assumes fin: "dexp x \<noteq> 2047" and lo: "- (2 ^ 63) \<le> valof x" and hi: "valof x < 2 ^ 63"
  shows "\<exists>c. ceil x = Some c \<and> valof c = of_int \<lceil>valof x\<rceil> \<and> dexp c \<noteq> 2047"
proof -
  define v where "v = valof x"
  define t where "t = tz v"
  define td where "td = ll2d t"
  from trunc_in_range[OF assms]
  have tr: "trunc x = Some td" and vt: "valof td = of_int t" and ft: "dexp td \<noteq> 2047"
    by (simp_all add: td_def t_def v_def)
  have nn: "\<not> d_nan x" "\<not> d_nan td" using fin ft by (simp_all add: d_nan_def)
  have lt: "dlt td x = (of_int t < v)" using nn by (simp add: dlt_def vt v_def)
  show ?thesis
  proof (cases "of_int t < v")
    case True
    have pos: "0 \<le> v"
    proof (rule ccontr)
      assume "\<not> 0 \<le> v"
      then have "t = \<lceil>v\<rceil>" by (simp add: t_def tz_def)
      then have "v \<le> of_int t" by simp
      with True show False by simp
    qed
    then have tf: "t = \<lfloor>v\<rfloor>" by (simp add: t_def tz_def)
    have ni: "v \<noteq> of_int \<lfloor>v\<rfloor>" using True tf by auto
    then have cl: "\<lceil>v\<rceil> = t + 1"
      by (simp add: tf ceiling_altdef)
    have small: "\<bar>v\<bar> < 2 ^ 52" using not_int_small[of x] ni by (simp add: v_def)
    have "\<bar>rat_of_int t\<bar> \<le> \<bar>v\<bar>" unfolding t_def by (rule tz_abs_le)
    with small have "\<bar>rat_of_int t\<bar> < of_int (2 ^ 52)" by simp
    then have "rat_of_int \<bar>t\<bar> < of_int (2 ^ 52)" by simp
    then have ta: "\<bar>t\<bar> < 2 ^ 52" by (simp only: of_int_less_iff)
    have t0: "0 \<le> t" using pos by (simp add: tf)
    have s: "valof td + valof d_1 = of_int (t + 1)" by (simp add: vt d_1_facts)
    have "valof (dadd td d_1) = of_int (t + 1) \<and> dexp (dadd td d_1) \<noteq> 2047"
      by (rule dadd_exact[OF ft d_1_facts(2) s]) (use t0 ta in auto)
    then show ?thesis using True by (simp add: ceil_def tr lt cl v_def[symmetric])
  next
    case False
    have "\<lceil>v\<rceil> = t"
    proof (cases "0 \<le> v")
      case True
      then have tf: "t = \<lfloor>v\<rfloor>" by (simp add: t_def tz_def)
      have "v \<le> of_int \<lfloor>v\<rfloor>" using False tf by simp
      then have e: "v = of_int \<lfloor>v\<rfloor>" using of_int_floor_le[of v] by (rule antisym)
      have "\<lceil>v\<rceil> = \<lfloor>v\<rfloor>" by (subst ceiling_altdef) (rule if_P[OF e])
      then show ?thesis by (simp only: tf)
    next
      case neg: False
      then show ?thesis by (simp add: t_def tz_def)
    qed
    then show ?thesis using False by (simp add: ceil_def tr lt vt ft v_def[symmetric])
  qed
qed

text \<open>
  Within the range of \<^verbatim>\<open>long long\<close> the portable functions are correct: for a finite
  double \<open>x\<close> with \<open>-2^63 \<le> x < 2^63\<close>, \<^verbatim>\<open>floor(x)\<close> and \<^verbatim>\<open>ceil(x)\<close> are the doubles whose
  values are the mathematical floor and ceiling of \<open>x\<close>, so \<^verbatim>\<open>floor(x) <= x <= ceil(x)\<close>,
  and for an integral \<open>x\<close> all of \<^verbatim>\<open>floor(x)\<close>, \<^verbatim>\<open>ceil(x)\<close> and \<^verbatim>\<open>trunc(x)\<close> equal \<open>x\<close>.
\<close>

theorem floor_ceil_in_range:
  assumes "isfinite x" and "- (2 ^ 63) \<le> valof x" and "valof x < 2 ^ 63"
  shows "\<exists>t f c. trunc x = Some t \<and> floor_c x = Some f \<and> ceil x = Some c \<and>
           valof f = of_int \<lfloor>valof x\<rfloor> \<and> valof c = of_int \<lceil>valof x\<rceil> \<and>
           dle f x \<and> dle x c \<and>
           (valof x \<in> \<int> \<longrightarrow> deq f x \<and> deq c x \<and> deq t x \<and> deq f c)"
proof -
  have fin: "dexp x \<noteq> 2047" using assms(1) by (simp add: isfinite_dexp)
  from trunc_in_range[OF fin assms(2,3)] obtain t where
    t: "trunc x = Some t" "valof t = of_int (tz (valof x))" "dexp t \<noteq> 2047" by blast
  from floor_in_range[OF fin assms(2,3)] obtain f where
    f: "floor_c x = Some f" "valof f = of_int \<lfloor>valof x\<rfloor>" "dexp f \<noteq> 2047" by blast
  from ceil_in_range[OF fin assms(2,3)] obtain c where
    c: "ceil x = Some c" "valof c = of_int \<lceil>valof x\<rceil>" "dexp c \<noteq> 2047" by blast
  have nn: "\<not> d_nan x" "\<not> d_nan t" "\<not> d_nan f" "\<not> d_nan c"
    using fin t(3) f(3) c(3) by (simp_all add: d_nan_def)
  have le: "dle f x" "dle x c" using nn by (simp_all add: dle_def f(2) c(2))
  have int: "deq f x \<and> deq c x \<and> deq t x \<and> deq f c" if "valof x \<in> \<int>"
  proof -
    from that obtain k where k: "valof x = of_int k" by (auto elim: Ints_cases)
    show ?thesis using nn by (simp add: deq_def f(2) c(2) t(2) k tz_of_int)
  qed
  show ?thesis using t(1) f(1,2) c(1,2) le int by blast
qed

text \<open>The input \<open>-2.5\<close>: floor \<open>-3\<close>, ceiling \<open>-2\<close>.\<close>

theorem floor_ceil_in_range_witness:
  "isfinite 0xC004000000000000 \<and> valof 0xC004000000000000 = - 5 / 2 \<and>
   valof (the (floor_c 0xC004000000000000)) = - 3 \<and>
   valof (the (ceil 0xC004000000000000)) = - 2"
proof -
  have v: "valof 0xC004000000000000 = - 5 / 2" by (simp add: fp_eval)
  have h: "isfinite 0xC004000000000000" "- (2 ^ 63) \<le> valof 0xC004000000000000"
    "valof 0xC004000000000000 < 2 ^ 63"
    by (simp_all add: isfinite_def v)
  from floor_ceil_in_range[OF h] obtain f c where
    "floor_c 0xC004000000000000 = Some f" "ceil 0xC004000000000000 = Some c"
    "valof f = of_int \<lfloor>valof 0xC004000000000000\<rfloor>" "valof c = of_int \<lceil>valof 0xC004000000000000\<rceil>"
    by blast
  moreover have "\<lceil>- (5 / 2) :: rat\<rceil> = - 2" "\<lfloor>- (5 / 2) :: rat\<rfloor> = - 3"
    by (simp_all add: ceiling_def)
  ultimately show ?thesis using h(1) by (simp add: v)
qed

subsection \<open>Outside the range of long long\<close>

text \<open>
  Claim C3 asks \<^verbatim>\<open>floor(x) <= x <= ceil(x)\<close> of every finite double, and
  \<^verbatim>\<open>floor(x) == ceil(x) == trunc(x) == x\<close> of every integral one. The portable
  \<^verbatim>\<open>trunc\<close> goes through \<^verbatim>\<open>(long long)x\<close>, which C leaves undefined once the
  integral part of \<open>x\<close> does not fit 64 bits: at the finite, integral double \<open>2^64\<close>
  none of \<^verbatim>\<open>trunc\<close>, \<^verbatim>\<open>floor\<close> and \<^verbatim>\<open>ceil\<close> has a defined result.
\<close>

theorem floor_ceil_trunc_out_of_range:
  "isfinite 0x43F0000000000000 \<and> valof 0x43F0000000000000 = 2 ^ 64 \<and>
   trunc 0x43F0000000000000 = None \<and>
   floor_c 0x43F0000000000000 = None \<and>
   ceil 0x43F0000000000000 = None"
  by (simp add: isfinite_def floor_c_def ceil_def trunc_def fp_eval)

subsection \<open>round\<close>

text \<open>The ceiling of a negative quotient of numerals, for evaluation.\<close>

lemma ceiling_rat_neg_numeral [simp]:
  "\<lceil>- (numeral a / numeral b) :: rat\<rceil> = - (numeral a div numeral b)"
  unfolding ceiling_def by simp

lemma d_half_facts: "valof d_half = 1 / 2" "dexp d_half \<noteq> 2047" "\<not> dsign d_half"
  by (simp_all add: fp_eval)

text \<open>
  \<^verbatim>\<open>round\<close> hands the binary64 sum \<^verbatim>\<open>x + 0.5\<close> to \<^verbatim>\<open>floor\<close>, so within the range of
  \<^verbatim>\<open>long long\<close> its result is the mathematical floor of that (rounded) sum.
\<close>

lemma round_in_range:
  assumes "dexp (dadd x d_half) \<noteq> 2047" and "- (2 ^ 63) \<le> valof (dadd x d_half)"
    and "valof (dadd x d_half) < 2 ^ 63"
  shows "\<exists>r. round_c x = Some r \<and> valof r = of_int \<lfloor>valof (dadd x d_half)\<rfloor> \<and> dexp r \<noteq> 2047"
  unfolding round_c_def by (rule floor_in_range[OF assms])

text \<open>
  At a half-integer \<open>k + 1/2\<close> the sum is the integer \<open>k + 1\<close>, of magnitude below \<open>2^53\<close>,
  hence computed without rounding error.
\<close>

lemma half_sum_exact:
  assumes fin: "dexp x \<noteq> 2047" and v: "valof x = of_int k + 1 / 2"
  shows "valof (dadd x d_half) = of_int (k + 1) \<and> dexp (dadd x d_half) \<noteq> 2047 \<and> \<bar>k + 1\<bar> < 2 ^ 53"
proof -
  have fl: "\<lfloor>valof x\<rfloor> = k" unfolding v by (simp add: floor_unique)
  have "valof x \<noteq> of_int \<lfloor>valof x\<rfloor>" unfolding fl by (simp add: v)
  then have small: "\<bar>valof x\<bar> < 2 ^ 52" by (rule not_int_small)
  have "\<bar>rat_of_int (k + 1)\<bar> \<le> \<bar>valof x\<bar> + 1 / 2" by (simp add: v)
  with small have "\<bar>rat_of_int (k + 1)\<bar> < of_int (2 ^ 53)" by simp
  then have "rat_of_int \<bar>k + 1\<bar> < of_int (2 ^ 53)" by simp
  then have kb: "\<bar>k + 1\<bar> < 2 ^ 53" by (simp only: of_int_less_iff)
  have s: "valof x + valof d_half = of_int (k + 1)" by (simp add: v d_half_facts)
  show ?thesis
  proof (cases "k + 1 = 0")
    case False
    from dadd_exact[OF fin d_half_facts(2) s False kb] kb show ?thesis by simp
  next
    case True
    have nn: "\<not> d_nan x" "\<not> d_inf x" "\<not> d_nan d_half" "\<not> d_inf d_half"
      using fin d_half_facts(2) by (simp_all add: d_nan_def d_inf_def)
    have "valof x + valof d_half = 0" using s True by simp
    then have "dadd x d_half = 0"
      using nn d_half_facts(3) by (simp add: dadd_def Let_def signed_zero_def)
    then show ?thesis using True by (simp add: valof_zero_pattern)
  qed
qed

lemma round_tie:
  assumes fin: "dexp x \<noteq> 2047" and v: "valof x = of_int k + 1 / 2"
  shows "\<exists>r. round_c x = Some r \<and> valof r = of_int (k + 1)"
proof -
  from half_sum_exact[OF assms]
  have e: "valof (dadd x d_half) = of_int (k + 1)" "dexp (dadd x d_half) \<noteq> 2047" "\<bar>k + 1\<bar> < 2 ^ 53"
    by auto
  have "\<bar>rat_of_int (k + 1)\<bar> < 2 ^ 63"
  proof -
    have "\<bar>k + 1\<bar> < 2 ^ 63" using e(3) by simp
    then have "rat_of_int \<bar>k + 1\<bar> < of_int (2 ^ 63)" by (simp only: of_int_less_iff)
    then show ?thesis by simp
  qed
  then have r: "- (2 ^ 63) \<le> valof (dadd x d_half)" "valof (dadd x d_half) < 2 ^ 63"
    unfolding e(1) by (simp_all add: abs_less_iff)
  from round_in_range[OF e(2) r] obtain r' where
    r': "round_c x = Some r'" "valof r' = of_int \<lfloor>valof (dadd x d_half)\<rfloor>" by blast
  have "valof r' = of_int (k + 1)" unfolding r'(2) e(1) by simp
  with r'(1) show ?thesis by blast
qed

text \<open>
  The run of \<^verbatim>\<open>round(-2.75)\<close>: the sum is \<open>-2.25\<close>, which \<^verbatim>\<open>trunc\<close> takes to \<open>-2.0\<close>;
  this is greater than the sum, so \<^verbatim>\<open>floor\<close> subtracts one.
\<close>

lemma round_neg_2_75:
  "round_c 0xC006000000000000 = Some 0xC008000000000000"
proof -
  have s: "dadd 0xC006000000000000 d_half = 0xC002000000000000" by (simp add: fp_eval)
  have t: "trunc 0xC002000000000000 = Some 0xC000000000000000" by (simp add: trunc_def fp_eval)
  have g: "dgt 0xC000000000000000 0xC002000000000000" by (simp add: fp_eval)
  have n: "dneg d_1 = 0xBFF0000000000000" by (simp add: dneg_def d_1_def)
  have c: "\<not> d_nan 0xC000000000000000 \<and> \<not> d_inf 0xC000000000000000 \<and>
      \<not> d_nan 0xBFF0000000000000 \<and> \<not> d_inf 0xBFF0000000000000" by (simp add: fp_eval)
  have v: "valof 0xC000000000000000 + valof 0xBFF0000000000000 = - 3" by (simp add: fp_eval)
  have r: "dround (- 3) = 0xC008000000000000" by (simp add: fp_eval)
  have "dadd 0xC000000000000000 0xBFF0000000000000 = 0xC008000000000000"
    by (simp add: dadd_def c v r Let_def)
  then show ?thesis by (simp add: round_c_def floor_c_def s t g dsub_def n)
qed

text \<open>
  Claim C5, as amended. \<^verbatim>\<open>round(x)\<close> is \<^verbatim>\<open>floor\<close> applied to the binary64 sum
  \<^verbatim>\<open>x + 0.5\<close>, which is rounded to nearest before the floor is taken. For every double
  \<open>x\<close> whose sum \<open>s\<close> is finite with \<open>-2^63 \<le> s < 2^63\<close>, \<^verbatim>\<open>round(x)\<close> is the double whose
  value is the mathematical floor of \<open>s\<close>. At every finite half-integer \<open>x = k + 1/2\<close> the
  sum is exact and \<^verbatim>\<open>round(x)\<close> is \<open>k + 1\<close>: ties go up, not to even. In particular
  \<^verbatim>\<open>round(2.5) = 3.0\<close> and \<^verbatim>\<open>round(-2.5) = -2.0\<close>; and \<^verbatim>\<open>round(-2.75) = -3.0\<close>, through
  the decrement of \<^verbatim>\<open>floor\<close>.
\<close>

theorem round_floor_of_sum:
  "round_c x = floor_c (dadd x d_half) \<and>
   (isfinite (dadd x d_half) \<and> - (2 ^ 63) \<le> valof (dadd x d_half) \<and>
      valof (dadd x d_half) < 2 ^ 63 \<longrightarrow>
      (\<exists>r. round_c x = Some r \<and> valof r = of_int \<lfloor>valof (dadd x d_half)\<rfloor>)) \<and>
   (isfinite x \<and> valof x = of_int k + 1 / 2 \<longrightarrow>
      (\<exists>r. round_c x = Some r \<and> valof r = of_int (k + 1))) \<and>
   round_c 0x4004000000000000 = Some 0x4008000000000000 \<and>
   round_c 0xC004000000000000 = Some 0xC000000000000000 \<and>
   round_c 0xC006000000000000 = Some 0xC008000000000000"
proof (intro conjI impI)
  show "round_c x = floor_c (dadd x d_half)" by (simp add: round_c_def)
next
  assume "isfinite (dadd x d_half) \<and> - (2 ^ 63) \<le> valof (dadd x d_half) \<and>
      valof (dadd x d_half) < 2 ^ 63"
  then have "dexp (dadd x d_half) \<noteq> 2047" "- (2 ^ 63) \<le> valof (dadd x d_half)"
    "valof (dadd x d_half) < 2 ^ 63" by (simp_all add: isfinite_dexp)
  from round_in_range[OF this]
  show "\<exists>r. round_c x = Some r \<and> valof r = of_int \<lfloor>valof (dadd x d_half)\<rfloor>" by blast
next
  assume "isfinite x \<and> valof x = of_int k + 1 / 2"
  then have "dexp x \<noteq> 2047" "valof x = of_int k + 1 / 2" by (simp_all add: isfinite_dexp)
  then show "\<exists>r. round_c x = Some r \<and> valof r = of_int (k + 1)" by (rule round_tie)
next
  show "round_c 0x4004000000000000 = Some 0x4008000000000000"
    by (simp add: round_c_def floor_c_def trunc_def fp_eval)
next
  show "round_c 0xC004000000000000 = Some 0xC000000000000000"
    by (simp add: round_c_def floor_c_def trunc_def fp_eval)
next
  show "round_c 0xC006000000000000 = Some 0xC008000000000000"
    by (rule round_neg_2_75)
qed

text \<open>
  The inputs \<open>-2.75\<close> (sum \<open>-2.25\<close>, result \<open>-3\<close>) and the half-integer \<open>3.5\<close>
  (\<open>k = 3\<close>, result \<open>4\<close>).
\<close>

theorem round_floor_of_sum_witness:
  "isfinite (dadd 0xC006000000000000 d_half) \<and>
   valof (dadd 0xC006000000000000 d_half) = - 9 / 4 \<and>
   valof (the (round_c 0xC006000000000000)) = - 3 \<and>
   isfinite 0x400C000000000000 \<and> valof 0x400C000000000000 = of_int 3 + 1 / 2 \<and>
   valof (the (round_c 0x400C000000000000)) = 4"
proof -
  have s: "dadd 0xC006000000000000 d_half = 0xC002000000000000" by (simp add: fp_eval)
  have v1: "valof 0xC002000000000000 = - 9 / 4" by (simp add: fp_eval)
  have v2: "valof 0x400C000000000000 = of_int 3 + 1 / 2" by (simp add: fp_eval)
  have f1: "isfinite 0xC002000000000000" by (simp add: isfinite_def)
  have f2: "isfinite 0x400C000000000000" by (simp add: isfinite_def)
  have h1: "isfinite (dadd 0xC006000000000000 d_half) \<and>
      - (2 ^ 63) \<le> valof (dadd 0xC006000000000000 d_half) \<and>
      valof (dadd 0xC006000000000000 d_half) < 2 ^ 63"
    unfolding s v1 using f1 by simp
  have fl: "\<lfloor>- 9 / 4 :: rat\<rfloor> = - 3" by simp
  from round_floor_of_sum[of "0xC006000000000000" 0] h1 obtain r where
    r: "round_c 0xC006000000000000 = Some r"
      "valof r = of_int \<lfloor>valof (dadd 0xC006000000000000 d_half)\<rfloor>" by blast
  have a: "valof (the (round_c 0xC006000000000000)) = - 3"
    unfolding r(1) option.sel r(2) s v1 fl by simp
  from round_floor_of_sum[of "0x400C000000000000" 3] f2 v2 obtain r' where
    r': "round_c 0x400C000000000000 = Some r'" "valof r' = of_int (3 + 1)" by blast
  have b: "valof (the (round_c 0x400C000000000000)) = 4"
    unfolding r'(1) option.sel r'(2) by simp
  from h1 have c: "isfinite (dadd 0xC006000000000000 d_half)" by blast
  have d: "valof (dadd 0xC006000000000000 d_half) = - 9 / 4" unfolding s by (rule v1)
  from c d a f2 v2 b show ?thesis by blast
qed

text \<open>
  Claim C5, as stated, reads \<^verbatim>\<open>round\<close> as rounding half up for every double: the value
  of \<^verbatim>\<open>round(x)\<close> would be \<open>\<lfloor>x + 1/2\<rfloor>\<close>. The sum is taken in binary64, though. The
  largest double below one half, \<open>0.49999999999999994\<close>, lies strictly between \<open>0\<close> and
  \<open>1/2\<close>, so rounding half up gives \<open>0\<close>; its sum with \<open>0.5\<close> rounds to \<open>1.0\<close>, and
  \<^verbatim>\<open>round\<close> returns \<open>1.0\<close>.
\<close>

theorem round_half_up_counterexample:
  "isfinite 0x3FDFFFFFFFFFFFFF \<and>
   round_c 0x3FDFFFFFFFFFFFFF = Some 0x3FF0000000000000 \<and>
   valof 0x3FF0000000000000 = 1 \<and>
   0 < valof 0x3FDFFFFFFFFFFFFF \<and>
   valof 0x3FDFFFFFFFFFFFFF < 1 / 2 \<and>
   \<lfloor>valof 0x3FDFFFFFFFFFFFFF + 1 / 2\<rfloor> = 0"
proof -
  have v: "valof 0x3FDFFFFFFFFFFFFF = 9007199254740991 / 18014398509481984"
    by (simp add: fp_eval)
  have f: "isfinite 0x3FDFFFFFFFFFFFFF" by (simp add: isfinite_def)
  have r: "round_c 0x3FDFFFFFFFFFFFFF = Some 0x3FF0000000000000"
    by (simp add: round_c_def floor_c_def trunc_def fp_eval)
  have o: "valof 0x3FF0000000000000 = 1" by (simp add: fp_eval)
  have p: "0 < valof 0x3FDFFFFFFFFFFFFF" unfolding v by simp
  have l: "valof 0x3FDFFFFFFFFFFFFF < 1 / 2" unfolding v by simp
  have fl: "\<lfloor>valof 0x3FDFFFFFFFFFFFFF + 1 / 2\<rfloor> = 0" unfolding v by simp
  from f r o p l fl show ?thesis by blast
qed

subsection \<open>fmod\<close>

text \<open>A zero divisor, of either sign, yields the NaN \<^verbatim>\<open>0.0 / 0.0\<close>.\<close>

lemma fmod_zero_divisor: "deq y d_0 \<Longrightarrow> \<exists>r. fmod x y = Some r \<and> isnan r"
  by (simp add: fmod_def isnan_qnan)

text \<open>
  While the quotient \<^verbatim>\<open>x / y\<close> is finite and within the range of \<^verbatim>\<open>long long\<close>,
  \<^verbatim>\<open>fmod(x, y)\<close> is \<^verbatim>\<open>x - t * y\<close> for the double \<open>t\<close> whose value is the quotient
  truncated toward zero.
\<close>

lemma fmod_in_range:
  assumes "\<not> deq y d_0" and "isfinite (ddiv x y)"
    and "- (2 ^ 63) \<le> valof (ddiv x y)" and "valof (ddiv x y) < 2 ^ 63"
  shows "\<exists>t. trunc (ddiv x y) = Some t \<and> valof t = of_int (tz (valof (ddiv x y))) \<and>
           fmod x y = Some (dsub x (dmul t y))"
proof -
  have fin: "dexp (ddiv x y) \<noteq> 2047" using assms(2) by (simp add: isfinite_dexp)
  from trunc_in_range[OF fin assms(3,4)]
  have t: "trunc (ddiv x y) = Some (ll2d (tz (valof (ddiv x y))))"
    "valof (ll2d (tz (valof (ddiv x y)))) = of_int (tz (valof (ddiv x y)))" by simp_all
  have "fmod x y = Some (dsub x (dmul (ll2d (tz (valof (ddiv x y)))) y))"
    using assms(1) by (simp add: fmod_def Let_def t(1))
  with t show ?thesis by blast
qed

text \<open>
  \<^verbatim>\<open>fmod(5.0, 0.0)\<close> is NaN, \<^verbatim>\<open>fmod(5.5, 2.0) = 1.5\<close> and \<^verbatim>\<open>fmod(-5.5, 2.0) = -1.5\<close>
  (the quotient \<open>-2.75\<close> truncates to \<open>-2\<close>, not to its floor \<open>-3\<close>).
\<close>

lemma fmod_instances:
  "isnan (the (fmod 0x4014000000000000 0))"
  "fmod 0x4016000000000000 0x4000000000000000 = Some 0x3FF8000000000000"
  "fmod 0xC016000000000000 0x4000000000000000 = Some 0xBFF8000000000000"
proof -
  have "deq 0 d_0" by (simp add: fp_eval)
  then show "isnan (the (fmod 0x4014000000000000 0))" by (simp add: fmod_def isnan_qnan)
next
  show "fmod 0x4016000000000000 0x4000000000000000 = Some 0x3FF8000000000000"
    by (simp add: fmod_def trunc_def fp_eval)
next
  have nz: "\<not> deq 0x4000000000000000 d_0" by (simp add: fp_eval)
  have q: "ddiv 0xC016000000000000 0x4000000000000000 = 0xC006000000000000"
    by (simp add: fp_eval)
  have t: "trunc 0xC006000000000000 = Some 0xC000000000000000" by (simp add: trunc_def fp_eval)
  have m: "dmul 0xC000000000000000 0x4000000000000000 = 0xC010000000000000"
    by (simp add: fp_eval)
  have s: "dsub 0xC016000000000000 0xC010000000000000 = 0xBFF8000000000000"
    by (simp add: fp_eval)
  show "fmod 0xC016000000000000 0x4000000000000000 = Some 0xBFF8000000000000"
    by (simp add: fmod_def nz q t m s Let_def)
qed

text \<open>
  Claim C6 asks \<^verbatim>\<open>fmod(x, y) = x - trunc(x / y) * y\<close> whenever \<open>y\<close> is not zero. The
  portable \<^verbatim>\<open>fmod\<close> truncates the quotient with the portable \<^verbatim>\<open>trunc\<close>, hence through
  \<^verbatim>\<open>(long long)\<close>, which C leaves undefined for a quotient of magnitude \<open>2^63\<close> or
  more. At \<open>x = 1e20\<close>, \<open>y = 3.0\<close> both operands are finite and \<open>y\<close> is not zero; the
  quotient is the finite, integral double \<open>33333333333333331968 \<ge> 2^63\<close>, on which
  \<^verbatim>\<open>trunc\<close>, and with it \<^verbatim>\<open>fmod\<close>, has no defined result. The quotient being integral
  already, the formula of the claim is \<^verbatim>\<open>x - (x / y) * y\<close> there, which is \<open>0.0\<close> in
  binary64.
\<close>

theorem fmod_large_quotient:
  "isfinite 0x4415AF1D78B58C40 \<and> valof 0x4415AF1D78B58C40 = 10 ^ 20 \<and>
   isfinite 0x4008000000000000 \<and> valof 0x4008000000000000 = 3 \<and>
   \<not> deq 0x4008000000000000 d_0 \<and>
   ddiv 0x4415AF1D78B58C40 0x4008000000000000 = 0x43FCE97CA0F21055 \<and>
   isfinite 0x43FCE97CA0F21055 \<and>
   valof 0x43FCE97CA0F21055 = 33333333333333331968 \<and>
   2 ^ 63 \<le> valof 0x43FCE97CA0F21055 \<and>
   trunc 0x43FCE97CA0F21055 = None \<and>
   fmod 0x4415AF1D78B58C40 0x4008000000000000 = None \<and>
   dsub 0x4415AF1D78B58C40 (dmul 0x43FCE97CA0F21055 0x4008000000000000) = 0"
proof -
  have fx: "isfinite 0x4415AF1D78B58C40" "isfinite 0x4008000000000000"
    "isfinite 0x43FCE97CA0F21055" by (simp_all add: isfinite_def)
  have vx: "valof 0x4415AF1D78B58C40 = 10 ^ 20" by (simp add: fp_eval)
  have vy: "valof 0x4008000000000000 = 3" by (simp add: fp_eval)
  have nz: "\<not> deq 0x4008000000000000 d_0" by (simp add: fp_eval)
  have q: "ddiv 0x4415AF1D78B58C40 0x4008000000000000 = 0x43FCE97CA0F21055"
    by (simp add: fp_eval)
  have vq: "valof 0x43FCE97CA0F21055 = 33333333333333331968" by (simp add: fp_eval)
  have b: "2 ^ 63 \<le> valof 0x43FCE97CA0F21055" unfolding vq by simp
  have t: "trunc 0x43FCE97CA0F21055 = None" by (simp add: trunc_def fp_eval)
  have f: "fmod 0x4415AF1D78B58C40 0x4008000000000000 = None"
    by (simp add: fmod_def nz q t Let_def)
  have m: "dmul 0x43FCE97CA0F21055 0x4008000000000000 = 0x4415AF1D78B58C40"
    by (simp add: fp_eval)
  have s: "dsub 0x4415AF1D78B58C40 0x4415AF1D78B58C40 = 0" by (simp add: fp_eval)
  have e: "dsub 0x4415AF1D78B58C40 (dmul 0x43FCE97CA0F21055 0x4008000000000000) = 0"
    unfolding m by (rule s)
  from fx vx vy nz q vq b t f e show ?thesis by blast
qed

end
